theory Spec2Isabelle
  imports Complex_Main "HOL-Library.Word" "HOL-Library.Monad_Syntax"
begin

section \<open>The photo-to-profile extractor (src/utils/photoToProfile.ts)\<close>

text \<open>
  The embedding follows the second (later) variant of the module, the one that returns
  an \<open>ExtractProfileResult\<close>. Intensities and every other fractional quantity are
  reals (the rounding of IEEE doubles is not modelled); pixel indices, widths, heights
  and counts are naturals or integers; a boolean mask is a \<open>bool list\<close> in row-major
  order.
\<close>

definition MAX_WIDTH :: int where
  "MAX_WIDTH = 500"

definition MAX_PIXELS :: int where
  "MAX_PIXELS = 500 * 800"

definition DEFAULT_TARGET_POINTS :: int where
  "DEFAULT_TARGET_POINTS = 18"

subsection \<open>Input and output types\<close>

text \<open>
  \<open>image.naturalWidth\<close> / \<open>image.width\<close> as the guard of the function sees it: not
  a number at all, \<open>NaN\<close>, an infinity, or a finite value. The DOM attributes are
  \<open>unsigned long\<close>, so a finite value is an integer.
\<close>

datatype dimension = NotANumber | NaN | Infinite | Finite int

text \<open>
  The image together with the canvas it is drawn on: whether \<open>getContext('2d')\<close>
  gives a context, the raw dimensions, and what \<open>drawImage(image, 0, 0, w, h)\<close>
  followed by \<open>getImageData(0, 0, w, h)\<close> yields, pixel by pixel (red, green, blue,
  alpha of pixel \<open>i\<close> of the \<open>w\<close> by \<open>h\<close> canvas). The scaling done by the
  browser is outside the module.
\<close>

record image =
  hasContext :: bool
  naturalWidth :: dimension
  naturalHeight :: dimension
  drawnPixel :: "nat \<Rightarrow> nat \<Rightarrow> nat \<Rightarrow> 8 word \<times> 8 word \<times> 8 word \<times> 8 word"

text \<open>
  \<open>ExtractProfileOptions\<close>; every field is optional. The median half-window and the
  number of output points are counts and are taken as integers.
\<close>

record ExtractProfileOptions =
  opt_blur :: "nat option"
  opt_smoothing :: "int option"
  opt_invert :: "bool option"
  opt_targetPoints :: "int option"
  opt_thresholdBias :: "real option"
  opt_cleanup :: "nat option"
  opt_contrastStretch :: "bool option"

record ProfilePoint =
  point_x :: real
  point_y :: real

datatype DecorationType =
  smooth | zigzag | verticalHatch | horizontalHatch | diagonalHatch | crossHatch |
  stippling | circularImpressions

record DecorationBand =
  band_type :: DecorationType
  fromY :: real
  toY :: real

record ExtractProfileResult =
  profile :: "ProfilePoint list"
  decorationBands :: "DecorationBand list"

datatype error = TypeError

definition emptyResult :: ExtractProfileResult where
  "emptyResult = \<lparr>profile = [], decorationBands = []\<rparr>"

text \<open>
  Reading a mask at an index: \<open>fg[i]\<close> beyond the end of the array is \<open>undefined\<close>,
  which every test of the module treats as false.
\<close>

definition fgAt :: "bool list \<Rightarrow> nat \<Rightarrow> bool" where
  "fgAt fg i = (i < length fg \<and> fg ! i)"

text \<open>The pixels in the order of \<open>for (y = 0; y < h; y++) for (x = 0; x < w; x++)\<close>.\<close>

definition scanOrder :: "nat \<Rightarrow> nat \<Rightarrow> (nat \<times> nat) list" where
  "scanOrder w h = concat (map (\<lambda>y. map (\<lambda>x. (y, x)) [0..<w]) [0..<h])"

text \<open>\<open>fg.filter(Boolean).length\<close>.\<close>

definition countTrue :: "bool list \<Rightarrow> nat" where
  "countTrue fg = length (filter (\<lambda>v. v) fg)"

subsection \<open>Loader and resizer (lines 548 to 564)\<close>

text \<open>
  \<open>None\<close> stands for the early return of the empty result. The two \<open>Math.floor\<close>
  of lines 562 and 563 act on integers and change nothing.
\<close>

definition resize :: "int \<Rightarrow> int \<Rightarrow> (int \<times> int) option" where
  "resize w0 h0 =
     (if w0 < 1 \<or> h0 < 1 then None
      else
        let (w1, h1) = (if w0 > MAX_WIDTH
                        then (MAX_WIDTH, \<lfloor>(real_of_int h0 * real_of_int MAX_WIDTH) / real_of_int w0\<rfloor>)
                        else (w0, h0));
            (w2, h2) = (if w1 * h1 > MAX_PIXELS
                        then let scale = sqrt (real_of_int MAX_PIXELS / real_of_int (w1 * h1))
                             in (max 1 \<lfloor>real_of_int w1 * scale\<rfloor>, max 1 \<lfloor>real_of_int h1 * scale\<rfloor>)
                        else (w1, h1))
        in if w2 < 1 \<or> h2 < 1 then None else Some (w2, h2))"

definition processingSize :: "image \<Rightarrow> (int \<times> int) option" where
  "processingSize img =
     (case (naturalWidth img, naturalHeight img) of
        (Finite w0, Finite h0) \<Rightarrow> resize w0 h0
      | _ \<Rightarrow> None)"

subsection \<open>Grayscale, contrast stretch, blur\<close>

definition getImageData :: "image \<Rightarrow> nat \<Rightarrow> nat \<Rightarrow> 8 word list" where
  "getImageData img w h =
     concat (map (\<lambda>i. case drawnPixel img w h i of (r, g, b, a) \<Rightarrow> [r, g, b, a]) [0..<w * h])"

fun toGrayscale :: "8 word list \<Rightarrow> real list" where
  "toGrayscale (r # g # b # a # data) =
     (0.299 * real (unat r) + 0.587 * real (unat g) + 0.114 * real (unat b)) # toGrayscale data"
| "toGrayscale _ = []"

definition contrastStretch :: "real list \<Rightarrow> real list" where
  "contrastStretch gray =
     (let mn = fold (\<lambda>v m. if v < m then v else m) gray 255;
          mx = fold (\<lambda>v m. if v > m then v else m) gray 0;
          range = (if mx - mn = 0 then 1 else mx - mn)
      in map (\<lambda>v. max 0 (min 255 (((v - mn) / range) * 255))) gray)"

text \<open>
  The box filters read \<open>gray\<close> and write a copy of it, at interior pixels only. With
  \<open>gray\<close> of length \<open>w * h\<close>, as it is in the pipeline, every index is in range.
\<close>

definition boxSum :: "real list \<Rightarrow> nat \<Rightarrow> nat \<Rightarrow> nat \<Rightarrow> int list \<Rightarrow> real" where
  "boxSum gray w y x ds =
     (\<Sum>dy\<leftarrow>ds. \<Sum>dx\<leftarrow>ds. gray ! nat ((int y + dy) * int w + (int x + dx)))"

definition blur3x3 :: "real list \<Rightarrow> nat \<Rightarrow> nat \<Rightarrow> real list" where
  "blur3x3 gray w h =
     fold (\<lambda>y out. fold (\<lambda>x out. out[y * w + x := boxSum gray w y x [-1, 0, 1] / 9])
                         [1..<w - 1] out)
          [1..<h - 1] gray"

definition blur5x5 :: "real list \<Rightarrow> nat \<Rightarrow> nat \<Rightarrow> real list" where
  "blur5x5 gray w h =
     fold (\<lambda>y out. fold (\<lambda>x out. out[y * w + x := boxSum gray w y x [-2, -1, 0, 1, 2] / 25])
                         [2..<w - 2] out)
          [2..<h - 2] gray"

subsection \<open>Otsu threshold\<close>

text \<open>
  \<open>hist[Math.min(255, Math.floor(gray[i]))]++\<close> on an array of 256 zeros. A negative
  index would create a property outside the 256 bins, so the bins are unchanged.
\<close>

definition histBin :: "real \<Rightarrow> int" where
  "histBin g = min 255 \<lfloor>g\<rfloor>"

definition histogram :: "real list \<Rightarrow> nat list" where
  "histogram gray =
     fold (\<lambda>g hist. let k = histBin g in
                      if 0 \<le> k then hist[nat k := hist ! nat k + 1] else hist)
          gray (replicate 256 0)"

text \<open>
  The loop \<open>for (t = 0; t < 256; t++)\<close> with its \<open>continue\<close> and \<open>break\<close>; the
  running variables are \<open>sumB\<close>, \<open>wB\<close>, \<open>maxVar\<close> and \<open>bestT\<close>.
\<close>

fun otsu_loop :: "nat list \<Rightarrow> int \<Rightarrow> int \<Rightarrow> nat list \<Rightarrow> int \<Rightarrow> int \<Rightarrow> real \<Rightarrow> nat \<Rightarrow> nat" where
  "otsu_loop hist sumAll totalN [] sumB wB maxVar bestT = bestT"
| "otsu_loop hist sumAll totalN (t # ts) sumB wB maxVar bestT =
     (let wB' = wB + int (hist ! t) in
      if wB' = 0 then otsu_loop hist sumAll totalN ts sumB wB' maxVar bestT
      else
        let wF = totalN - wB' in
        if wF = 0 then bestT
        else
          let sumB' = sumB + int t * int (hist ! t);
              mB = real_of_int sumB' / real_of_int wB';
              mF = real_of_int (sumAll - sumB') / real_of_int wF;
              varBetween = real_of_int wB' * real_of_int wF * (mB - mF)\<^sup>2
          in if varBetween > maxVar
             then otsu_loop hist sumAll totalN ts sumB' wB' varBetween t
             else otsu_loop hist sumAll totalN ts sumB' wB' maxVar bestT)"

definition otsuThreshold :: "real list \<Rightarrow> nat" where
  "otsuThreshold gray =
     (let hist = histogram gray;
          sumAll = (\<Sum>i\<leftarrow>[0..<256]. int i * int (hist ! i));
          totalN = int (length gray)
      in otsu_loop hist sumAll totalN [0..<256] 0 0 0 0)"

subsection \<open>Threshold bias\<close>

text \<open>
  \<open>bias = Math.max(-50, Math.min(50, options.thresholdBias ?? 0))\<close> and
  \<open>thresh = Math.max(0, Math.min(255, thresh + bias))\<close>.
\<close>

definition clampBias :: "real option \<Rightarrow> real" where
  "clampBias thresholdBias =
     max (-50) (min 50 (case thresholdBias of None \<Rightarrow> 0 | Some b \<Rightarrow> b))"

definition biasedThreshold :: "real list \<Rightarrow> real option \<Rightarrow> real" where
  "biasedThreshold gray thresholdBias =
     max 0 (min 255 (real (otsuThreshold gray) + clampBias thresholdBias))"

subsection \<open>Background heuristic and binarization\<close>

text \<open>
  \<open>detectBackgroundColor\<close>: the mean of the border samples. An empty sample list
  would give \<open>NaN\<close>, and \<open>NaN < 128\<close> is false.
\<close>

definition borderPixels :: "real list \<Rightarrow> nat \<Rightarrow> nat \<Rightarrow> real list" where
  "borderPixels gray w h =
     concat (map (\<lambda>x. [gray ! x, gray ! ((h - 1) * w + x)]) [0..<w]) @
     concat (map (\<lambda>y. [gray ! (y * w), gray ! (y * w + w - 1)]) [0..<h])"

definition detectBackgroundColor :: "real list \<Rightarrow> nat \<Rightarrow> nat \<Rightarrow> bool \<times> real" where
  "detectBackgroundColor gray w h =
     (let bp = borderPixels gray w h;
          avgBorder = sum_list bp / real (length bp)
      in (bp \<noteq> [] \<and> avgBorder < 128, avgBorder))"

definition binarize :: "real list \<Rightarrow> real \<Rightarrow> bool \<Rightarrow> bool list" where
  "binarize gray threshold darkIsForeground =
     map (\<lambda>g. if darkIsForeground then g \<le> threshold else g \<ge> threshold) gray"

text \<open>
  The tests on a foreground fraction \<open>count / total\<close>. With \<open>total = 0\<close> the
  fraction is \<open>NaN\<close> and every comparison is false.
\<close>

definition fracDegenerate :: "nat \<Rightarrow> nat \<Rightarrow> bool" where
  "fracDegenerate cnt totalN =
     (totalN \<noteq> 0 \<and> (real cnt / real totalN < 0.12 \<or> real cnt / real totalN > 0.88))"

definition fracReasonable :: "nat \<Rightarrow> nat \<Rightarrow> bool" where
  "fracReasonable cnt totalN =
     (totalN \<noteq> 0 \<and> real cnt / real totalN \<ge> 0.12 \<and> real cnt / real totalN \<le> 0.88)"

text \<open>
  Lines 596 to 636: the polarity and the mask. With \<open>options.invert\<close> set the mask
  is one binarization; otherwise the border heuristic, the flip and the shifted
  threshold follow.
\<close>

definition autoBinarize :: "real list \<Rightarrow> nat \<Rightarrow> nat \<Rightarrow> real \<Rightarrow> bool list \<times> bool" where
  "autoBinarize gray w h thresh =
     (let isDark = fst (detectBackgroundColor gray w h);
          darkIsForeground = \<not> isDark;
          fg = binarize gray thresh darkIsForeground;
          totalN = length gray;
          (fg1, dark1) = (if fracDegenerate (countTrue fg) totalN
                          then (binarize gray thresh (\<not> darkIsForeground), \<not> darkIsForeground)
                          else (fg, darkIsForeground))
      in if fracDegenerate (countTrue fg1) totalN
         then
           let threshAlt = (if isDark then max 0 (min 255 (thresh - 30))
                            else max 0 (min 255 (thresh + 30)));
               fgAlt = binarize gray threshAlt (\<not> isDark)
           in if fracReasonable (countTrue fgAlt) totalN then (fgAlt, \<not> isDark)
              else (fg1, dark1)
         else (fg1, dark1))"

definition selectForeground :: "real list \<Rightarrow> nat \<Rightarrow> nat \<Rightarrow> real \<Rightarrow> bool option \<Rightarrow> bool list" where
  "selectForeground gray w h thresh invert =
     (case invert of
        Some darkIsForeground \<Rightarrow> binarize gray thresh darkIsForeground
      | None \<Rightarrow> fst (autoBinarize gray w h thresh))"

subsection \<open>Connected components\<close>

text \<open>
  \<open>find\<close> with path compression, on the sparse array \<open>parent\<close>. The result is
  \<open>None\<close> when the recursion does not return (a cycle in \<open>parent\<close>) or when it
  reaches a label that was never allocated.
\<close>

partial_function (option) find_root :: "(nat \<rightharpoonup> nat) \<Rightarrow> nat \<Rightarrow> (nat \<times> (nat \<rightharpoonup> nat)) option" where
  "find_root parent x =
     (case parent x of
        None \<Rightarrow> None
      | Some p \<Rightarrow>
          if p = x then Some (x, parent)
          else Option.bind (find_root parent p)
                 (\<lambda>res. Some (fst res, (snd res)(x \<mapsto> fst res))))"

declare find_root.simps [code]

text \<open>The state of the labelling scan: \<open>labels\<close>, \<open>nextLabel\<close> and \<open>parent\<close>.\<close>

type_synonym labelState = "nat list \<times> nat \<times> (nat \<rightharpoonup> nat)"

definition labelPixel :: "bool list \<Rightarrow> nat \<Rightarrow> nat \<times> nat \<Rightarrow> labelState \<Rightarrow> labelState option" where
  "labelPixel fg width yx st =
     (case (yx, st) of ((y, x), (labels, nextLabel, parent)) \<Rightarrow>
        let i = y * width + x in
        if \<not> fgAt fg i then Some st
        else
          let left = (if x > 0 then labels ! (i - 1) else 0);
              up = (if y > 0 then labels ! (i - width) else 0)
          in if left \<noteq> 0 \<and> up \<noteq> 0 then
               (case find_root parent left of
                  None \<Rightarrow> None
                | Some (rl, parent1) \<Rightarrow>
                    (case find_root parent1 up of
                       None \<Rightarrow> None
                     | Some (ru, parent2) \<Rightarrow>
                         let r = min rl ru
                         in Some (labels[i := r], nextLabel, parent2(ru \<mapsto> r, rl \<mapsto> r))))
             else if left \<noteq> 0 then
               (case find_root parent left of
                  None \<Rightarrow> None
                | Some (r, parent1) \<Rightarrow> Some (labels[i := r], nextLabel, parent1))
             else if up \<noteq> 0 then
               (case find_root parent up of
                  None \<Rightarrow> None
                | Some (r, parent1) \<Rightarrow> Some (labels[i := r], nextLabel, parent1))
             else Some (labels[i := nextLabel], Suc nextLabel, parent(nextLabel \<mapsto> nextLabel)))"

fun labelScan :: "bool list \<Rightarrow> nat \<Rightarrow> (nat \<times> nat) list \<Rightarrow> labelState \<Rightarrow> labelState option" where
  "labelScan fg width [] st = Some st"
| "labelScan fg width (yx # rest) st =
     (case labelPixel fg width yx st of
        None \<Rightarrow> None
      | Some st' \<Rightarrow> labelScan fg width rest st')"

text \<open>The second pass: \<open>if (labels[i]) labels[i] = root(labels[i])\<close>.\<close>

fun resolveRoots :: "nat list \<Rightarrow> nat list \<Rightarrow> (nat \<rightharpoonup> nat) \<Rightarrow> nat list option" where
  "resolveRoots [] labels parent = Some labels"
| "resolveRoots (i # rest) labels parent =
     (if labels ! i \<noteq> 0 then
        (case find_root parent (labels ! i) of
           None \<Rightarrow> None
         | Some (r, parent') \<Rightarrow> resolveRoots rest (labels[i := r]) parent')
      else resolveRoots rest labels parent)"

definition labelComponents :: "bool list \<Rightarrow> nat \<Rightarrow> nat \<Rightarrow> (nat list \<times> nat) option" where
  "labelComponents fg width height =
     (let n = width * height in
      case labelScan fg width (scanOrder width height) (replicate n 0, 1, Map.empty) of
        None \<Rightarrow> None
      | Some (labels, nextLabel, parent) \<Rightarrow>
          (case resolveRoots [0..<n] labels parent of
             None \<Rightarrow> None
           | Some labels' \<Rightarrow> Some (labels', length (remdups (filter (\<lambda>l. l > 0) labels')))))"

text \<open>
  \<open>counts\<close> is a \<open>Map\<close>, iterated in the order in which its keys were first set:
  an association list that keeps that order.
\<close>

fun countsSet :: "(nat \<times> nat) list \<Rightarrow> nat \<Rightarrow> (nat \<times> nat) list" where
  "countsSet [] l = [(l, 1)]"
| "countsSet ((k, c) # counts) l =
     (if k = l then (k, c + 1) # counts else (k, c) # countsSet counts l)"

definition componentCounts :: "nat list \<Rightarrow> (nat \<times> nat) list" where
  "componentCounts labels = fold (\<lambda>l counts. if l > 0 then countsSet counts l else counts) labels []"

definition bestComponent :: "(nat \<times> nat) list \<Rightarrow> nat \<times> nat" where
  "bestComponent counts =
     fold (\<lambda>(l, c) (bestLabel, bestCount). if c > bestCount then (l, c) else (bestLabel, bestCount))
          counts (0, 0)"

definition keepLargestComponent :: "bool list \<Rightarrow> nat \<Rightarrow> nat \<Rightarrow> bool list option" where
  "keepLargestComponent fg width height =
     (case labelComponents fg width height of
        None \<Rightarrow> None
      | Some (labels, count) \<Rightarrow>
          let bestLabel = fst (bestComponent (componentCounts labels))
          in Some (map (\<lambda>i. fg ! i \<and> i < length labels \<and> labels ! i = bestLabel) [0..<length fg]))"

subsection \<open>Morphology\<close>

definition neighbourhood :: "(int \<times> int) list" where
  "neighbourhood = concat (map (\<lambda>dy. map (\<lambda>dx. (dy, dx)) [-1, 0, 1]) [-1, 0, 1])"

definition dilate3 :: "bool list \<Rightarrow> nat \<Rightarrow> nat \<Rightarrow> bool list" where
  "dilate3 fg w h =
     fold (\<lambda>y out. fold (\<lambda>x out.
             if fgAt fg (y * w + x) then out
             else if list_ex (\<lambda>(dy, dx). fgAt fg (nat ((int y + dy) * int w + (int x + dx)))) neighbourhood
                  then out[y * w + x := True] else out)
           [1..<w - 1] out)
          [1..<h - 1] fg"

definition erode3 :: "bool list \<Rightarrow> nat \<Rightarrow> nat \<Rightarrow> bool list" where
  "erode3 fg w h =
     fold (\<lambda>y out. fold (\<lambda>x out.
             if \<not> fgAt fg (y * w + x) then out
             else if list_all (\<lambda>(dy, dx). fgAt fg (nat ((int y + dy) * int w + (int x + dx)))) neighbourhood
                  then out else out[y * w + x := False])
           [1..<w - 1] out)
          [1..<h - 1] fg"

definition morphClose :: "bool list \<Rightarrow> nat \<Rightarrow> nat \<Rightarrow> bool list" where
  "morphClose fg w h = erode3 (dilate3 fg w h) w h"

definition morphOpen :: "bool list \<Rightarrow> nat \<Rightarrow> nat \<Rightarrow> bool list" where
  "morphOpen fg w h = dilate3 (erode3 fg w h) w h"

subsection \<open>Filling from the edges\<close>

text \<open>
  The \<open>while (queue.length > 0)\<close> loop of \<open>fillFromEdges\<close>; \<open>None\<close> when it
  does not end. The function is local to \<open>extractProfileFromImage\<close> and is called
  with its \<open>w\<close> and \<open>h\<close>, both at least 1, so that every queued index is below
  \<open>w * h\<close>.
\<close>

partial_function (option) floodLoop ::
  "bool list \<Rightarrow> nat \<Rightarrow> nat \<Rightarrow> nat list \<Rightarrow> nat set \<Rightarrow> bool list \<Rightarrow> bool list option" where
  "floodLoop fg w h queue visited isBackground =
     (case queue of
        [] \<Rightarrow> Some isBackground
      | idx # rest \<Rightarrow>
          if idx \<in> visited \<or> fgAt fg idx then floodLoop fg w h rest visited isBackground
          else
            let visited' = insert idx visited;
                x = idx mod w;
                y = idx div w;
                neighbors = [if x > 0 then Some (idx - 1) else None,
                             if x < w - 1 then Some (idx + 1) else None,
                             if y > 0 then Some (idx - w) else None,
                             if y < h - 1 then Some (idx + w) else None];
                pushed = concat (map (\<lambda>nb. case nb of
                                              None \<Rightarrow> []
                                            | Some n \<Rightarrow> if n \<notin> visited' \<and> \<not> fgAt fg n then [n] else [])
                                     neighbors)
            in floodLoop fg w h (rest @ pushed) visited' (isBackground[idx := True]))"

declare floodLoop.simps [code]

definition edgeSeeds :: "bool list \<Rightarrow> nat \<Rightarrow> nat \<Rightarrow> nat list" where
  "edgeSeeds fg w h =
     filter (\<lambda>topIdx. \<not> fgAt fg topIdx) [0..<w] @
     concat (map (\<lambda>y. (if \<not> fgAt fg (y * w) then [y * w] else []) @
                       (if \<not> fgAt fg (y * w + w - 1) then [y * w + w - 1] else []))
                 [0..<h])"

definition fillFromEdges :: "bool list \<Rightarrow> nat \<Rightarrow> nat \<Rightarrow> bool list option" where
  "fillFromEdges fg w h =
     map_option (map (\<lambda>v. \<not> v))
       (floodLoop fg w h (edgeSeeds fg w h) {} (replicate (w * h) False))"

subsection \<open>Outer contour\<close>

definition leftmostFg :: "bool list \<Rightarrow> nat \<Rightarrow> nat \<Rightarrow> int" where
  "leftmostFg fg w y =
     (case find (\<lambda>x. fgAt fg (y * w + x)) [0..<w] of None \<Rightarrow> -1 | Some x \<Rightarrow> int x)"

definition rightmostFg :: "bool list \<Rightarrow> nat \<Rightarrow> nat \<Rightarrow> int" where
  "rightmostFg fg w y =
     (case find (\<lambda>x. fgAt fg (y * w + x)) (rev [0..<w]) of None \<Rightarrow> -1 | Some x \<Rightarrow> int x)"

definition fillRow :: "bool list \<Rightarrow> nat \<Rightarrow> nat \<Rightarrow> bool list \<Rightarrow> bool list" where
  "fillRow fg w y contour =
     (let leftmost = leftmostFg fg w y;
          rightmost = rightmostFg fg w y
      in if leftmost \<ge> 0 \<and> rightmost \<ge> leftmost
         then fold (\<lambda>x c. c[y * w + x := True]) [nat leftmost..<nat rightmost + 1] contour
         else contour)"

definition extractOuterContour :: "bool list \<Rightarrow> nat \<Rightarrow> nat \<Rightarrow> bool list" where
  "extractOuterContour fg w h = fold (fillRow fg w) [0..<h] (replicate (w * h) False)"

subsection \<open>Bounding box, centerline, side, radii\<close>

definition boundingBox :: "bool list \<Rightarrow> nat \<Rightarrow> nat \<Rightarrow> nat \<times> nat \<times> nat \<times> nat" where
  "boundingBox fg w h =
     fold (\<lambda>(y, x) (yMin, yMax, xMin, xMax).
             if fgAt fg (y * w + x)
             then (if y < yMin then y else yMin, if y > yMax then y else yMax,
                   if x < xMin then x else xMin, if x > xMax then x else xMax)
             else (yMin, yMax, xMin, xMax))
          (scanOrder w h) (h, 0, w, 0)"

text \<open>The pixels of the rows \<open>yMin\<close> to \<open>yMax\<close>, in scan order, that are foreground.\<close>

definition boxPixels :: "bool list \<Rightarrow> nat \<Rightarrow> nat \<Rightarrow> nat \<Rightarrow> nat list" where
  "boxPixels fg w yMin yMax =
     concat (map (\<lambda>y. filter (\<lambda>x. fgAt fg (y * w + x)) [0..<w]) [yMin..<yMax + 1])"

definition centerline :: "bool list \<Rightarrow> nat \<Rightarrow> nat \<Rightarrow> nat \<Rightarrow> nat \<Rightarrow> nat \<Rightarrow> nat" where
  "centerline fg w yMin yMax xMin xMax =
     (let xPositions = sort (boxPixels fg w yMin yMax)
      in if length xPositions > 0 then xPositions ! (length xPositions div 2)
         else (xMin + xMax) div 2)"

definition extractRightSide :: "bool list \<Rightarrow> nat \<Rightarrow> nat \<Rightarrow> nat \<Rightarrow> nat \<Rightarrow> bool" where
  "extractRightSide fg w yMin yMax centerlineX =
     (let leftPixels = length (filter (\<lambda>x. x < centerlineX) (boxPixels fg w yMin yMax));
          rightPixels = length (filter (\<lambda>x. x > centerlineX) (boxPixels fg w yMin yMax))
      in rightPixels \<ge> leftPixels)"

definition rowRadius :: "bool list \<Rightarrow> nat \<Rightarrow> nat \<Rightarrow> bool \<Rightarrow> nat \<Rightarrow> nat" where
  "rowRadius fg w centerlineX right y =
     (if right
      then fold (\<lambda>x maxDist. if fgAt fg (y * w + x) \<and> x - centerlineX > maxDist
                              then x - centerlineX else maxDist)
                [centerlineX..<w] 0
      else fold (\<lambda>x maxDist. if fgAt fg (y * w + x) \<and> centerlineX - x > maxDist
                              then centerlineX - x else maxDist)
                (rev [0..<centerlineX + 1]) 0)"

definition maxOf :: "nat list \<Rightarrow> nat" where
  "maxOf radii = fold (\<lambda>maxDist maxRadius. if maxDist > maxRadius then maxDist else maxRadius) radii 0"

subsection \<open>Median filter, normalization, resampling\<close>

text \<open>
  \<open>medianFilter\<close> is called with \<open>halfWindow = Math.min(smoothing, 5)\<close> only when
  \<open>smoothing > 0\<close>, so the half-window is a positive count.
\<close>

definition medianFilter :: "nat list \<Rightarrow> nat \<Rightarrow> nat list" where
  "medianFilter arr halfWindow =
     (let n = length arr
      in map (\<lambda>i. let buf = sort (map (\<lambda>j. arr ! nat (max 0 (min (int n - 1) (int i + j))))
                                       [- int halfWindow..int halfWindow])
                   in buf ! (length buf div 2))
             [0..<n])"

definition rawPoints :: "nat list \<Rightarrow> nat \<Rightarrow> ProfilePoint list" where
  "rawPoints smoothed maxRadius =
     (let len = length smoothed
      in map (\<lambda>i. \<lparr>point_x = (if maxRadius > 0 then min 1 (real (smoothed ! i) / real maxRadius) else 0),
                    point_y = (if len > 1 then 1 - real i / (real len - 1) else 0.5)\<rparr>)
             [0..<len])"

text \<open>
  The inner loop of the downsampling. \<open>rawPoints[0].y\<close> on an empty array is a
  \<open>TypeError\<close>.
\<close>

definition nearestPoint :: "ProfilePoint list \<Rightarrow> real \<Rightarrow> error + ProfilePoint" where
  "nearestPoint pts yTarget =
     (case pts of
        [] \<Rightarrow> Inl TypeError
      | p0 # ps \<Rightarrow>
          Inr (fst (fold (\<lambda>p (best, bestDy).
                            let dy = \<bar>point_y p - yTarget\<bar>
                            in if dy < bestDy then (p, dy) else (best, bestDy))
                         ps (p0, \<bar>point_y p0 - yTarget\<bar>))))"

fun downsample :: "ProfilePoint list \<Rightarrow> int \<Rightarrow> nat list \<Rightarrow> error + ProfilePoint list" where
  "downsample pts targetPoints [] = Inr []"
| "downsample pts targetPoints (k # ks) =
     (let yTarget = (if targetPoints > 1 then real k / (real_of_int targetPoints - 1) else 0.5)
      in case nearestPoint pts yTarget of
           Inl e \<Rightarrow> Inl e
         | Inr best \<Rightarrow>
             (case downsample pts targetPoints ks of
                Inl e \<Rightarrow> Inl e
              | Inr out \<Rightarrow> Inr (best # out)))"

text \<open>
  \<open>out[0].y = 0; out[out.length - 1].y = 1; out.sort((a, b) => a.y - b.y)\<close>. On an
  empty \<open>out\<close> the first assignment is a \<open>TypeError\<close>. The sort is stable.
\<close>

definition finishProfile :: "ProfilePoint list \<Rightarrow> error + ProfilePoint list" where
  "finishProfile out =
     (if out = [] then Inl TypeError
      else
        let out1 = out[0 := (out ! 0)\<lparr>point_y := 0\<rparr>];
            out2 = out1[length out1 - 1 := (out1 ! (length out1 - 1))\<lparr>point_y := 1\<rparr>]
        in Inr (sort_key point_y out2))"

subsection \<open>The pipeline\<close>

text \<open>Lines 570 to 573: the grayscale image that is thresholded.\<close>

definition grayImage :: "image \<Rightarrow> ExtractProfileOptions \<Rightarrow> nat \<Rightarrow> nat \<Rightarrow> real list" where
  "grayImage img options w h =
     (let blurLevel = (case opt_blur options of None \<Rightarrow> 1 | Some b \<Rightarrow> b);
          gray0 = toGrayscale (getImageData img w h);
          gray1 = (if opt_contrastStretch options = Some True then contrastStretch gray0 else gray0)
      in if blurLevel = 1 then blur3x3 gray1 w h
         else if blurLevel = 2 then blur5x5 gray1 w h
         else gray1)"

text \<open>
  Lines 591 to 762: from the grayscale image to the mask that is measured. \<open>None\<close>
  when a labelling or the flood fill does not return.
\<close>

definition cleanupMask :: "bool list \<Rightarrow> nat \<Rightarrow> nat \<Rightarrow> nat \<Rightarrow> bool list option" where
  "cleanupMask fg0 w h cleanupLevel =
     do {
       fg1 \<leftarrow> keepLargestComponent fg0 w h;
       fg2 \<leftarrow> (if cleanupLevel \<ge> 1 then keepLargestComponent (morphClose fg1 w h) w h else Some fg1);
       fg3 \<leftarrow> (if cleanupLevel \<ge> 2
               then keepLargestComponent (morphClose (morphOpen fg2 w h) w h) w h else Some fg2);
       if cleanupLevel \<ge> 1 \<and> fracDegenerate (countTrue fg3) (w * h)
       then do {
         fgFilled \<leftarrow> fillFromEdges fg3 w h;
         if fracReasonable (countTrue fgFilled) (w * h) then keepLargestComponent fgFilled w h
         else Some fg3
       }
       else Some fg3
     }"

definition segmentMask :: "real list \<Rightarrow> nat \<Rightarrow> nat \<Rightarrow> ExtractProfileOptions \<Rightarrow> bool list option" where
  "segmentMask gray w h options =
     (let thresh = biasedThreshold gray (opt_thresholdBias options);
          fg0 = selectForeground gray w h thresh (opt_invert options);
          cleanupLevel = (case opt_cleanup options of None \<Rightarrow> 0 | Some c \<Rightarrow> c)
      in map_option (\<lambda>fg. extractOuterContour fg w h) (cleanupMask fg0 w h cleanupLevel))"

text \<open>Lines 764 to 870: from the mask to the result.\<close>

definition bboxHeight :: "bool list \<Rightarrow> nat \<Rightarrow> nat \<Rightarrow> int" where
  "bboxHeight fg w h = (case boundingBox fg w h of (yMin, yMax, xMin, xMax) \<Rightarrow> int yMax - int yMin + 1)"

definition radiusByRow :: "bool list \<Rightarrow> nat \<Rightarrow> nat \<Rightarrow> nat list" where
  "radiusByRow fg w h =
     (case boundingBox fg w h of (yMin, yMax, xMin, xMax) \<Rightarrow>
        let centerlineX = centerline fg w yMin yMax xMin xMax;
            right = extractRightSide fg w yMin yMax centerlineX
        in map (rowRadius fg w centerlineX right) [yMin..<yMax + 1])"

definition measureProfile :: "bool list \<Rightarrow> nat \<Rightarrow> nat \<Rightarrow> int \<Rightarrow> int \<Rightarrow> error + ExtractProfileResult" where
  "measureProfile fg w h smoothing targetPoints =
     (if bboxHeight fg w h < 10 then Inr emptyResult
      else
        let radii = radiusByRow fg w h;
            maxRadius = maxOf radii
        in if maxRadius < 2 then Inr emptyResult
           else
             let smoothed = (if smoothing > 0 then medianFilter radii (nat (min smoothing 5)) else radii);
                 pts = rawPoints smoothed maxRadius
             in case downsample pts targetPoints [0..<nat targetPoints] of
                  Inl e \<Rightarrow> Inl e
                | Inr out \<Rightarrow>
                    (case finishProfile out of
                       Inl e \<Rightarrow> Inl e
                     | Inr sorted_out \<Rightarrow> Inr \<lparr>profile = sorted_out, decorationBands = []\<rparr>))"

definition clampTargetPoints :: "int option \<Rightarrow> int" where
  "clampTargetPoints targetPoints =
     max 8 (min 24 (case targetPoints of None \<Rightarrow> DEFAULT_TARGET_POINTS | Some t \<Rightarrow> t))"

text \<open>
  \<open>extractProfileFromImage\<close>. The outer \<open>option\<close> is \<open>None\<close> when the call does not
  return; \<open>Inl\<close> is a thrown exception.
\<close>

definition extractProfileFromImage ::
  "image \<Rightarrow> ExtractProfileOptions \<Rightarrow> (error + ExtractProfileResult) option" where
  "extractProfileFromImage img options =
     (let smoothing = (case opt_smoothing options of None \<Rightarrow> 2 | Some s \<Rightarrow> s);
          targetPoints = clampTargetPoints (opt_targetPoints options)
      in if \<not> hasContext img then Some (Inr emptyResult)
         else
           (case processingSize img of
              None \<Rightarrow> Some (Inr emptyResult)
            | Some (wi, hi) \<Rightarrow>
                let w = nat wi; h = nat hi;
                    gray = grayImage img options w h
                in (case segmentMask gray w h options of
                      None \<Rightarrow> None
                    | Some fg \<Rightarrow> Some (measureProfile fg w h smoothing targetPoints))))"

subsection \<open>Auxiliary notions for the proofs\<close>

text \<open>The number of pixels whose intensity falls into bin \<open>t\<close> of the histogram.\<close>

definition binCount :: "real list \<Rightarrow> nat \<Rightarrow> nat" where
  "binCount gray t = length (filter (\<lambda>g. histBin g = int t) gray)"

text \<open>
  Row \<open>y\<close> of a mask, and the test that a row is one contiguous run of foreground
  pixels or has none: after the leading background and the foreground that follows it,
  only background remains.
\<close>

definition maskRow :: "bool list \<Rightarrow> nat \<Rightarrow> nat \<Rightarrow> bool list" where
  "maskRow m w y = take w (drop (y * w) m)"

definition isRun :: "bool list \<Rightarrow> bool" where
  "isRun row = list_all (\<lambda>v. \<not> v) (dropWhile (\<lambda>v. v) (dropWhile (\<lambda>v. \<not> v) row))"

text \<open>The span that \<open>extractOuterContour\<close> fills in row \<open>y\<close>.\<close>

definition rowSpan :: "bool list \<Rightarrow> nat \<Rightarrow> nat \<Rightarrow> nat \<Rightarrow> bool" where
  "rowSpan fg w y x = (0 \<le> leftmostFg fg w y \<and> leftmostFg fg w y \<le> int x \<and> int x \<le> rightmostFg fg w y)"

text \<open>The first step of \<open>resize\<close>, the clamp of the width, on its own.\<close>

definition widthClamp :: "int \<Rightarrow> int \<Rightarrow> int \<times> int" where
  "widthClamp w0 h0 = (if w0 > 500 then (500, \<lfloor>(real_of_int h0 * 500) / real_of_int w0\<rfloor>) else (w0, h0))"

text \<open>The invariant of a grayscale image: every intensity lies in \<open>[0, 255]\<close>.\<close>

definition inRange :: "real list \<Rightarrow> bool" where
  "inRange gray = list_all (\<lambda>g. 0 \<le> g \<and> g \<le> 255) gray"

text \<open>
  The three-tier fallback in the words of the specification: the foreground fraction of
  a mask; tier 1 is the border-heuristic polarity, tier 2 the flipped polarity, tier 3
  the threshold shifted by 30 toward the background value with the background-implied
  polarity, adopted only when its fraction lies in \<open>[12%, 88%]\<close>.
\<close>

definition fgFraction :: "bool list \<Rightarrow> real" where
  "fgFraction msk = real (countTrue msk) / real (length msk)"

definition threeTierFallback :: "real list \<Rightarrow> nat \<Rightarrow> nat \<Rightarrow> real \<Rightarrow> bool list \<times> bool" where
  "threeTierFallback gray w h thresh =
     (let backgroundDark = fst (detectBackgroundColor gray w h);
          borderPolarity = \<not> backgroundDark;
          mask1 = binarize gray thresh borderPolarity
      in if \<not> (fgFraction mask1 < 0.12 \<or> fgFraction mask1 > 0.88) then (mask1, borderPolarity)
         else
           let mask2 = binarize gray thresh (\<not> borderPolarity)
           in if \<not> (fgFraction mask2 < 0.12 \<or> fgFraction mask2 > 0.88) then (mask2, \<not> borderPolarity)
              else
                let shifted = (if backgroundDark then thresh - 30 else thresh + 30);
                    mask3 = binarize gray shifted (\<not> backgroundDark)
                in if 0.12 \<le> fgFraction mask3 \<and> fgFraction mask3 \<le> 0.88
                   then (mask3, \<not> backgroundDark)
                   else (mask2, \<not> borderPolarity))"

text \<open>A profile point with both coordinates in \<open>[0, 1]\<close>.\<close>

definition inUnitSquare :: "ProfilePoint \<Rightarrow> bool" where
  "inUnitSquare p = (0 \<le> point_x p \<and> point_x p \<le> 1 \<and> 0 \<le> point_y p \<and> point_y p \<le> 1)"

text \<open>
  What the labelling scan maintains: every allocated label \<open>l\<close> has a parent between 1
  and \<open>l\<close>, and every entry of \<open>labels\<close> is 0 or an allocated label.
\<close>

definition parentOk :: "nat \<Rightarrow> (nat \<rightharpoonup> nat) \<Rightarrow> bool" where
  "parentOk nextLabel parent =
     (\<forall>l. 1 \<le> l \<and> l < nextLabel \<longrightarrow> (\<exists>p. parent l = Some p \<and> 1 \<le> p \<and> p \<le> l))"

definition labelInv :: "nat \<Rightarrow> labelState \<Rightarrow> bool" where
  "labelInv n st =
     (case st of (labels, nextLabel, parent) \<Rightarrow>
        length labels = n \<and> 1 \<le> nextLabel \<and> (\<forall>l\<in>set labels. l < nextLabel) \<and>
        parentOk nextLabel parent)"

text \<open>A dimension that passes the guard of line 550: a finite number that is at least 1.\<close>

definition usableDimension :: "dimension \<Rightarrow> bool" where
  "usableDimension d = (case d of Finite v \<Rightarrow> 1 \<le> v | _ \<Rightarrow> False)"

text \<open>
  A small input used to exercise the theorems: a 3 by 10 image, black in its first
  column and its first row and white elsewhere, and the mask of its black pixels.
\<close>

definition exampleImage :: image where
  "exampleImage =
     \<lparr>hasContext = True, naturalWidth = Finite 3, naturalHeight = Finite 10,
      drawnPixel = (\<lambda>w h i. if i mod w = 0 \<or> i div w = 0 then (0, 0, 0, 255)
                              else (255, 255, 255, 255))\<rparr>"

definition defaultOptions :: ExtractProfileOptions where
  "defaultOptions =
     \<lparr>opt_blur = None, opt_smoothing = None, opt_invert = None, opt_targetPoints = None,
      opt_thresholdBias = None, opt_cleanup = None, opt_contrastStretch = None\<rparr>"

definition exampleOptions :: ExtractProfileOptions where
  "exampleOptions = defaultOptions\<lparr>opt_blur := Some 0, opt_invert := Some True\<rparr>"

definition exampleMask :: "bool list" where
  "exampleMask = map (\<lambda>i. i mod 3 = 0 \<or> i div 3 = 0) [0..<30]"

section \<open>Properties\<close>

subsection \<open>The histogram and the Otsu loop\<close>




lemma histogram_fold_nth:
  "length h = 256 \<Longrightarrow> t < 256 \<Longrightarrow>
   fold (\<lambda>g hist. let k = histBin g in
                      if 0 \<le> k then hist[nat k := hist ! nat k + 1] else hist) gray h ! t
   = h ! t + binCount gray t"
proof (induction gray arbitrary: h)
  case Nil
  then show ?case by (simp add: binCount_def)
next
  case (Cons g gray)
  let ?k = "histBin g"
  show ?case
  proof (cases "0 \<le> ?k")
    case True
    have "nat ?k < 256" using True unfolding histBin_def by linarith
    moreover have "(nat ?k = t) = (?k = int t)" using True by linarith
    ultimately show ?thesis using Cons True
      by (simp add: Let_def binCount_def nth_list_update)
  next
    case False
    have "?k \<noteq> int t" using False by linarith
    then show ?thesis using Cons False by (simp add: Let_def binCount_def)
  qed
qed

lemma histogram_nth: "t < 256 \<Longrightarrow> histogram gray ! t = binCount gray t"
  unfolding histogram_def by (subst histogram_fold_nth) auto

lemma otsu_loop_skip_empty:
  "\<forall>t\<in>set ts. hist ! t = 0 \<Longrightarrow>
   otsu_loop hist sumAll totalN (ts @ rest) sumB 0 maxVar bestT
   = otsu_loop hist sumAll totalN rest sumB 0 maxVar bestT"
  by (induction ts) auto

lemma otsu_loop_skip_gap:
  assumes "\<forall>t\<in>set ts. hist ! t = 0" "wB \<noteq> 0" "totalN - wB \<noteq> 0"
    and "maxVar = real_of_int wB * real_of_int (totalN - wB) *
           (real_of_int sumB / real_of_int wB - real_of_int (sumAll - sumB) / real_of_int (totalN - wB))\<^sup>2"
  shows "otsu_loop hist sumAll totalN (ts @ rest) sumB wB maxVar bestT
   = otsu_loop hist sumAll totalN rest sumB wB maxVar bestT"
  using assms by (induction ts) (auto simp: Let_def)


lemma binCount_other:
  assumes "\<forall>g\<in>set gray. histBin g = int a \<or> histBin g = int b" "t \<noteq> a" "t \<noteq> b"
  shows "binCount gray t = 0"
  using assms unfolding binCount_def by (induction gray) auto

lemma binCount_pos: "g \<in> set gray \<Longrightarrow> histBin g = int t \<Longrightarrow> 0 < binCount gray t"
  unfolding binCount_def by (induction gray) auto

lemma binCount_two:
  assumes "\<forall>g\<in>set gray. histBin g = int a \<or> histBin g = int b" "a \<noteq> b"
  shows "binCount gray a + binCount gray b = length gray"
  using assms unfolding binCount_def by (induction gray) auto

lemma sumAll_two:
  assumes "a < b" "b < 256" "\<forall>t<256. t \<noteq> a \<longrightarrow> t \<noteq> b \<longrightarrow> hist ! t = 0"
  shows "(\<Sum>i\<leftarrow>[0..<256]. int i * int (hist ! i)) = int a * int (hist ! a) + int b * int (hist ! b)"
proof -
  have "(\<Sum>i\<leftarrow>[0..<256]. int i * int (hist ! i)) = (\<Sum>i\<in>{0..<256}. int i * int (hist ! i))"
    by (simp add: interv_sum_list_conv_sum_set_nat)
  also have "\<dots> = (\<Sum>i\<in>{a, b}. int i * int (hist ! i))"
    using assms by (intro sum.mono_neutral_right) auto
  also have "\<dots> = int a * int (hist ! a) + int b * int (hist ! b)"
    using assms by simp
  finally show ?thesis .
qed

lemma upt_split3:
  assumes "a < b" "b < n"
  shows "[0..<n] = [0..<a] @ a # [Suc a..<b] @ b # [Suc b..<n]"
proof -
  have "[0..<n] = [0..<a] @ [a..<n]" using assms by (metis le_add2 le_add_same_cancel2 less_imp_le_nat order.strict_trans upt_add_eq_append zero_le le_eq_less_or_eq less_or_eq_imp_le nat_le_iff_add)
  also have "[a..<n] = a # [Suc a..<n]" using assms by (simp add: upt_conv_Cons)
  also have "[Suc a..<n] = [Suc a..<b] @ [b..<n]" using assms
    by (metis Suc_leI less_imp_le_nat le_Suc_ex upt_add_eq_append)
  also have "[b..<n] = b # [Suc b..<n]" using assms by (simp add: upt_conv_Cons)
  finally show ?thesis by simp
qed

lemma otsu_bimodal:
  assumes bins: "\<forall>g\<in>set gray. histBin g = int a \<or> histBin g = int b"
    and ab: "a < b" "b < 256"
    and ga: "\<exists>g\<in>set gray. histBin g = int a"
    and gb: "\<exists>g\<in>set gray. histBin g = int b"
  shows "otsuThreshold gray = a"
proof -
  define hist where "hist = histogram gray"
  define na where "na = binCount gray a"
  define nb where "nb = binCount gray b"
  have na: "0 < na" and nb: "0 < nb" using ga gb binCount_pos unfolding na_def nb_def by blast+
  have N: "na + nb = length gray" using binCount_two[OF bins] ab unfolding na_def nb_def by simp
  have ha: "hist ! a = na" and hb: "hist ! b = nb"
    using ab by (simp_all add: hist_def na_def nb_def histogram_nth)
  have h0: "\<forall>t<256. t \<noteq> a \<longrightarrow> t \<noteq> b \<longrightarrow> hist ! t = 0"
    using binCount_other[OF bins] by (simp add: hist_def histogram_nth)
  define sumAll where "sumAll = (\<Sum>i\<leftarrow>[0..<256]. int i * int (hist ! i))"
  have sumAll: "sumAll = int a * int na + int b * int nb"
    unfolding sumAll_def using sumAll_two[OF ab h0] ha hb by simp
  define totalN where "totalN = int (length gray)"
  have z1: "\<forall>t\<in>set [0..<a]. hist ! t = 0" using h0 ab by auto
  have z2: "\<forall>t\<in>set [Suc a..<b]. hist ! t = 0" using h0 ab by auto
  define v where "v = real na * real nb * (real a - real b)\<^sup>2"
  have vpos: "0 < v" unfolding v_def using na nb ab by simp
  have tot: "totalN - int na = int nb" unfolding totalN_def using N by linarith
  have tot2: "totalN - (int na + int nb) = 0" unfolding totalN_def using N by linarith
  have mB: "real_of_int (int a * int na) / real_of_int (int na) = real a" using na by simp
  have mF: "real_of_int (sumAll - int a * int na) / real_of_int (int nb) = real b"
    using nb by (simp add: sumAll)
  have mF': "(real_of_int sumAll - real a * real na) / real nb = real b"
    using nb by (simp add: sumAll)
  have "otsuThreshold gray = otsu_loop hist sumAll totalN [0..<256] 0 0 0 0"
    unfolding otsuThreshold_def Let_def hist_def sumAll_def totalN_def by simp
  also have "\<dots> = otsu_loop hist sumAll totalN ([0..<a] @ a # [Suc a..<b] @ b # [Suc b..<256]) 0 0 0 0"
    using upt_split3[OF ab] by simp
  also have "\<dots> = otsu_loop hist sumAll totalN (a # [Suc a..<b] @ b # [Suc b..<256]) 0 0 0 0"
    by (rule otsu_loop_skip_empty[OF z1])
  also have "\<dots> = otsu_loop hist sumAll totalN ([Suc a..<b] @ b # [Suc b..<256]) (int a * int na) (int na) v a"
    using na nb vpos by (simp add: ha tot Let_def mB mF mF' v_def)
  also have "\<dots> = otsu_loop hist sumAll totalN (b # [Suc b..<256]) (int a * int na) (int na) v a"
    apply (rule otsu_loop_skip_gap[OF z2])
    using na nb by (simp_all add: tot mB mF mF' v_def)
  also have "\<dots> = a"
    using na nb by (simp add: hb tot2 Let_def)
  finally show ?thesis .
qed

text \<open>
  C5 (amended). On a grayscale image whose pixels all fall into the histogram bins
  \<open>a\<close> and \<open>b\<close>, with \<open>a < b\<close> and both bins populated, \<open>otsuThreshold\<close>
  returns \<open>a\<close> itself: the variance is the same for every candidate from \<open>a\<close> to
  \<open>b - 1\<close>, and the strict comparison keeps the lowest of them. The threshold
  therefore satisfies \<open>a \<le> t < b\<close>, not \<open>a < t\<close>.
\<close>

theorem otsu_bimodal_lower_peak:
  assumes "\<forall>g\<in>set gray. histBin g = int a \<or> histBin g = int b"
    and "a < b" and "b < 256"
    and "\<exists>g\<in>set gray. histBin g = int a"
    and "\<exists>g\<in>set gray. histBin g = int b"
  shows "otsuThreshold gray = a \<and> a \<le> otsuThreshold gray \<and> otsuThreshold gray < b"
  using otsu_bimodal[OF assms] assms(2) by simp

theorem otsu_bimodal_lower_peak_witness:
  "otsuThreshold [10, 200] = 10 \<and> otsuThreshold [10, 200] < 200"
  using otsu_bimodal_lower_peak[of "[10, 200]" 10 200] by (simp add: histBin_def)

text \<open>
  The claim as stated, a threshold strictly between the peaks, fails on the two-pixel
  image with intensities 10 and 200.
\<close>

theorem otsu_not_strictly_between:
  "\<not> (10 < otsuThreshold [10, 200] \<and> otsuThreshold [10, 200] < 200)"
  using otsu_bimodal[of "[10, 200]" 10 200] by (simp add: histBin_def)

subsection \<open>Threshold bias\<close>


subsection \<open>Outer contour\<close>

lemma find_upt_least:
  "find P [m..<n] = Some x \<longleftrightarrow> (m \<le> x \<and> x < n \<and> P x \<and> (\<forall>z. m \<le> z \<and> z < x \<longrightarrow> \<not> P z))"
proof (induction "n - m" arbitrary: m)
  case 0
  then show ?case by auto
next
  case (Suc k)
  then have mn: "m < n" by simp
  have IH: "find P [Suc m..<n] = Some x \<longleftrightarrow>
      (Suc m \<le> x \<and> x < n \<and> P x \<and> (\<forall>z. Suc m \<le> z \<and> z < x \<longrightarrow> \<not> P z))"
    using Suc(1)[of "Suc m"] Suc(2) by simp
  show ?case
  proof (cases "P m")
    case True
    then show ?thesis using mn by (auto simp: upt_conv_Cons)
  next
    case False
    then show ?thesis using mn IH
      by (auto simp: upt_conv_Cons) (metis Suc_leI le_neq_implies_less)+
  qed
qed

lemma find_rev_upt_greatest:
  "find P (rev [m..<n]) = Some x \<longleftrightarrow> (m \<le> x \<and> x < n \<and> P x \<and> (\<forall>z. x < z \<and> z < n \<longrightarrow> \<not> P z))"
proof (induction n)
  case 0
  then show ?case by auto
next
  case (Suc n)
  show ?case
  proof (cases "m \<le> n")
    case True
    then show ?thesis using Suc
      by (auto simp: less_Suc_eq) 
  next
    case False
    then show ?thesis by auto
  qed
qed

lemma leftmostFg_cases:
  "(leftmostFg fg w y = -1 \<and> (\<forall>x<w. \<not> fgAt fg (y * w + x))) \<or>
   (\<exists>l<w. leftmostFg fg w y = int l \<and> fgAt fg (y * w + l) \<and> (\<forall>x<l. \<not> fgAt fg (y * w + x)))"
proof (cases "find (\<lambda>x. fgAt fg (y * w + x)) [0..<w]")
  case None
  have "\<forall>x<w. \<not> fgAt fg (y * w + x)" using None by (auto simp: find_None_iff)
  moreover have "leftmostFg fg w y = -1" using None by (simp add: leftmostFg_def)
  ultimately show ?thesis by blast
next
  case (Some l)
  then show ?thesis using find_upt_least[of "\<lambda>x. fgAt fg (y * w + x)" 0 w l]
    by (auto simp: leftmostFg_def)
qed

lemma rightmostFg_cases:
  "(rightmostFg fg w y = -1 \<and> (\<forall>x<w. \<not> fgAt fg (y * w + x))) \<or>
   (\<exists>r<w. rightmostFg fg w y = int r \<and> fgAt fg (y * w + r) \<and> (\<forall>x. r < x \<and> x < w \<longrightarrow> \<not> fgAt fg (y * w + x)))"
proof (cases "find (\<lambda>x. fgAt fg (y * w + x)) (rev [0..<w])")
  case None
  have "\<forall>x<w. \<not> fgAt fg (y * w + x)" using None by (auto simp: find_None_iff)
  moreover have "rightmostFg fg w y = -1" using None by (simp add: rightmostFg_def)
  ultimately show ?thesis by blast
next
  case (Some r)
  then show ?thesis using find_rev_upt_greatest[of "\<lambda>x. fgAt fg (y * w + x)" 0 w r]
    by (auto simp: rightmostFg_def)
qed

lemma fold_set_True_length:
  "length (fold (\<lambda>x c. c[k + x := True]) xs c) = length c"
  by (induction xs arbitrary: c) auto

lemma fold_set_True_nth:
  "j < length c \<Longrightarrow> fold (\<lambda>x c. c[k + x := True]) xs c ! j = (c ! j \<or> (\<exists>x\<in>set xs. j = k + x))"
proof (induction xs arbitrary: c)
  case Nil
  then show ?case by simp
next
  case (Cons a xs)
  have "fold (\<lambda>x c. c[k + x := True]) (a # xs) c ! j
        = (c[k + a := True] ! j \<or> (\<exists>x\<in>set xs. j = k + x))"
    using Cons by simp
  also have "c[k + a := True] ! j = (c ! j \<or> j = k + a)"
    using Cons(2) by (cases "j = k + a") (simp_all add: nth_list_update)
  finally show ?case by auto
qed

lemma rightmostFg_less: "rightmostFg fg w y < int w"
  using rightmostFg_cases[of fg w y] by auto

lemma leftmostFg_less: "leftmostFg fg w y < int w"
  using leftmostFg_cases[of fg w y] by auto

lemma fillRow_length: "length (fillRow fg w y c) = length c"
  by (simp add: fillRow_def Let_def fold_set_True_length)

lemma grid_index_eq:
  assumes "x < w" "x' < w" "y * w + x = y' * w + x'"
  shows "y = y' \<and> x = (x'::nat)"
proof -
  have "(y * w + x) div w = y" using assms(1) by simp
  moreover have "(y' * w + x') div w = y'" using assms(2) by simp
  ultimately have "y = y'" using assms(3) by metis
  then show ?thesis using assms(3) by simp
qed

lemma fillRow_nth:
  assumes "x < w" "y' * w + x < length c"
  shows "fillRow fg w y c ! (y' * w + x) = (c ! (y' * w + x) \<or> (y' = y \<and> rowSpan fg w y x))"
proof (cases "leftmostFg fg w y \<ge> 0 \<and> rightmostFg fg w y \<ge> leftmostFg fg w y")
  case False
  then show ?thesis by (auto simp: fillRow_def Let_def rowSpan_def)
next
  case True
  let ?l = "nat (leftmostFg fg w y)" and ?r = "nat (rightmostFg fg w y)"
  have r: "?r < w" using rightmostFg_less[of fg w y] True by linarith
  have "(\<exists>x'\<in>set [?l..<?r + 1]. y' * w + x = y * w + x') \<longleftrightarrow> (y' = y \<and> rowSpan fg w y x)"
  proof
    assume "\<exists>x'\<in>set [?l..<?r + 1]. y' * w + x = y * w + x'"
    then obtain x' where x': "?l \<le> x'" "x' \<le> ?r" "y' * w + x = y * w + x'" by auto
    then have "x' < w" using r by simp
    from grid_index_eq[OF assms(1) this x'(3)] x' True show "y' = y \<and> rowSpan fg w y x"
      by (auto simp: rowSpan_def)
  next
    assume "y' = y \<and> rowSpan fg w y x"
    then show "\<exists>x'\<in>set [?l..<?r + 1]. y' * w + x = y * w + x'"
      by (auto simp: rowSpan_def intro!: bexI[of _ x])
  qed
  then show ?thesis using True assms
    by (simp add: fillRow_def Let_def fold_set_True_nth)
qed

lemma fold_fillRow_length: "length (fold (fillRow fg w) ys c) = length c"
  by (induction ys arbitrary: c) (auto simp: fillRow_length)

lemma fold_fillRow_nth:
  assumes "x < w" "y' * w + x < length c"
  shows "fold (fillRow fg w) ys c ! (y' * w + x) = (c ! (y' * w + x) \<or> (y' \<in> set ys \<and> rowSpan fg w y' x))"
  using assms
proof (induction ys arbitrary: c)
  case Nil
  then show ?case by simp
next
  case (Cons y ys)
  then show ?case by (auto simp: fillRow_length fillRow_nth)
qed

lemma extractOuterContour_length: "length (extractOuterContour fg w h) = w * h"
  by (simp add: extractOuterContour_def fold_fillRow_length)

lemma grid_index_less: "x < w \<Longrightarrow> y < h \<Longrightarrow> y * w + x < w * (h::nat)"
proof -
  assume a: "x < w" "y < h"
  then have "y * w + x < y * w + w" by simp
  also have "\<dots> = Suc y * w" by simp
  also have "\<dots> \<le> h * w" using a(2) by (intro mult_le_mono1) simp
  finally show ?thesis by (simp add: mult.commute)
qed

lemma extractOuterContour_nth:
  assumes "x < w" "y < h"
  shows "extractOuterContour fg w h ! (y * w + x) = rowSpan fg w y x"
  using assms grid_index_less[OF assms]
  by (simp add: extractOuterContour_def fold_fillRow_nth)

lemma extractOuterContour_fgAt:
  assumes "x < w" "y < h"
  shows "fgAt (extractOuterContour fg w h) (y * w + x) = rowSpan fg w y x"
  using assms grid_index_less[OF assms]
  by (simp add: fgAt_def extractOuterContour_length extractOuterContour_nth)

lemma rowSpan_of_fg:
  assumes "x < w" "fgAt fg (y * w + x)"
  shows "rowSpan fg w y x"
proof -
  from leftmostFg_cases[of fg w y] assms obtain l where
    l: "l < w" "leftmostFg fg w y = int l" "\<forall>x<l. \<not> fgAt fg (y * w + x)" by blast
  from rightmostFg_cases[of fg w y] assms obtain r where
    r: "r < w" "rightmostFg fg w y = int r" "\<forall>x. r < x \<and> x < w \<longrightarrow> \<not> fgAt fg (y * w + x)" by blast
  have "l \<le> x" using l(3) assms(2) by (meson not_le)
  moreover have "x \<le> r" using r(3) assms by (meson not_le)
  ultimately show ?thesis by (simp add: rowSpan_def l r)
qed

lemma rowSpan_bounds:
  assumes "rowSpan fg w y x"
  shows "\<exists>l r. l \<le> x \<and> x \<le> r \<and> r < w \<and> leftmostFg fg w y = int l \<and> rightmostFg fg w y = int r
           \<and> fgAt fg (y * w + l) \<and> fgAt fg (y * w + r)"
proof -
  from assms have L: "0 \<le> leftmostFg fg w y" "leftmostFg fg w y \<le> int x" "int x \<le> rightmostFg fg w y"
    by (auto simp: rowSpan_def)
  from leftmostFg_cases[of fg w y] L obtain l where
    l: "l < w" "leftmostFg fg w y = int l" "fgAt fg (y * w + l)" by auto
  from rightmostFg_cases[of fg w y] L obtain r where
    r: "r < w" "rightmostFg fg w y = int r" "fgAt fg (y * w + r)" by auto
  show ?thesis using l r L by auto
qed

lemma outer_leftmost_same:
  assumes "y < h"
  shows "leftmostFg (extractOuterContour fg w h) w y = leftmostFg fg w y"
proof -
  let ?out = "extractOuterContour fg w h"
  have span: "\<And>x. x < w \<Longrightarrow> fgAt ?out (y * w + x) = rowSpan fg w y x"
    using assms by (simp add: extractOuterContour_fgAt)
  consider (empty) "leftmostFg fg w y = -1" "\<forall>x<w. \<not> fgAt fg (y * w + x)"
    | (some) l where "l < w" "leftmostFg fg w y = int l" "fgAt fg (y * w + l)"
        "\<forall>x<l. \<not> fgAt fg (y * w + x)"
    using leftmostFg_cases[of fg w y] by blast
  then show ?thesis
  proof cases
    case empty
    then have "\<forall>x<w. \<not> fgAt ?out (y * w + x)" using span by (simp add: rowSpan_def)
    then show ?thesis using leftmostFg_cases[of ?out w y] empty by auto
  next
    case some
    have sl: "rowSpan fg w y l" using rowSpan_of_fg[OF some(1,3)] .
    from leftmostFg_cases[of ?out w y] span sl some(1) obtain l' where
      l': "l' < w" "leftmostFg ?out w y = int l'" "fgAt ?out (y * w + l')"
        "\<forall>x<l'. \<not> fgAt ?out (y * w + x)" by blast
    have "l \<le> l'" using l'(3) span[OF l'(1)] some(2) by (simp add: rowSpan_def)
    moreover have "l' \<le> l" using l'(4) span[OF some(1)] sl by (meson not_le)
    ultimately show ?thesis using l'(2) some(2) by simp
  qed
qed

lemma outer_rightmost_same:
  assumes "y < h"
  shows "rightmostFg (extractOuterContour fg w h) w y = rightmostFg fg w y"
proof -
  let ?out = "extractOuterContour fg w h"
  have span: "\<And>x. x < w \<Longrightarrow> fgAt ?out (y * w + x) = rowSpan fg w y x"
    using assms by (simp add: extractOuterContour_fgAt)
  consider (empty) "rightmostFg fg w y = -1" "\<forall>x<w. \<not> fgAt fg (y * w + x)"
    | (some) r where "r < w" "rightmostFg fg w y = int r" "fgAt fg (y * w + r)"
        "\<forall>x. r < x \<and> x < w \<longrightarrow> \<not> fgAt fg (y * w + x)"
    using rightmostFg_cases[of fg w y] by blast
  then show ?thesis
  proof cases
    case empty
    then have "\<forall>x<w. \<not> fgAt ?out (y * w + x)" using span by (simp add: rowSpan_def)
    then show ?thesis using rightmostFg_cases[of ?out w y] empty by auto
  next
    case some
    have sr: "rowSpan fg w y r" using rowSpan_of_fg[OF some(1,3)] .
    from rightmostFg_cases[of ?out w y] span sr some(1) obtain r' where
      r': "r' < w" "rightmostFg ?out w y = int r'" "fgAt ?out (y * w + r')"
        "\<forall>x. r' < x \<and> x < w \<longrightarrow> \<not> fgAt ?out (y * w + x)" by blast
    have "r' \<le> r" using r'(3) span[OF r'(1)] some(2) by (simp add: rowSpan_def)
    moreover have "r \<le> r'" using r'(4) span[OF some(1)] sr some(1) by (meson not_le)
    ultimately show ?thesis using r'(2) some(2) by simp
  qed
qed

lemma grid_decompose:
  assumes "i < w * (h::nat)"
  shows "i mod w < w \<and> i div w < h \<and> i = (i div w) * w + i mod w"
proof -
  have w: "0 < w" using assms by (cases w) auto
  have "i div w < h" using assms w by (simp add: less_mult_imp_div_less mult.commute)
  then show ?thesis using w by simp
qed

lemma outer_contour_idem:
  "extractOuterContour (extractOuterContour fg w h) w h = extractOuterContour fg w h"
proof (rule nth_equalityI)
  show "length (extractOuterContour (extractOuterContour fg w h) w h) = length (extractOuterContour fg w h)"
    by (simp add: extractOuterContour_length)
next
  fix i assume "i < length (extractOuterContour (extractOuterContour fg w h) w h)"
  then have i: "i < w * h" by (simp add: extractOuterContour_length)
  define x y where "x = i mod w" and "y = i div w"
  have xy: "x < w" "y < h" "i = y * w + x" using grid_decompose[OF i] by (simp_all add: x_def y_def)
  show "extractOuterContour (extractOuterContour fg w h) w h ! i = extractOuterContour fg w h ! i"
    unfolding xy(3) using xy(1,2)
    by (simp add: extractOuterContour_nth rowSpan_def outer_leftmost_same outer_rightmost_same)
qed

lemma outer_contour_extensive:
  assumes "i < w * h" "fgAt fg i"
  shows "fgAt (extractOuterContour fg w h) i"
proof -
  define x y where "x = i mod w" and "y = i div w"
  have xy: "x < w" "y < h" "i = y * w + x" using grid_decompose[OF assms(1)] by (simp_all add: x_def y_def)
  have "rowSpan fg w y x" using rowSpan_of_fg[of x w fg y] xy assms(2) by simp
  then have "fgAt (extractOuterContour fg w h) (y * w + x)"
    using xy(1,2) by (simp add: extractOuterContour_fgAt)
  then show ?thesis using xy(3) by simp
qed

lemma all_false_after_gap:
  assumes "\<And>i j k. i \<le> j \<Longrightarrow> j \<le> k \<Longrightarrow> k < length (True # row) \<Longrightarrow>
             (True # row) ! i \<Longrightarrow> (True # row) ! k \<Longrightarrow> (True # row) ! j"
  shows "list_all (\<lambda>v. \<not> v) (dropWhile (\<lambda>v. v) row)"
  using assms
proof (induction row)
  case Nil
  then show ?case by simp
next
  case (Cons v row)
  show ?case
  proof (cases v)
    case True
    have "list_all (\<lambda>v. \<not> v) (dropWhile (\<lambda>v. v) row)"
    proof (rule Cons.IH)
      fix i j k assume a: "i \<le> j" "j \<le> k" "k < length (True # row)" "(True # row) ! i" "(True # row) ! k"
      have "(True # v # row) ! Suc j" 
        by (rule Cons.prems[of "Suc i" "Suc j" "Suc k"]) (use a True in \<open>auto simp: nth_Cons split: nat.splits\<close>)
      then show "(True # row) ! j" using True by (auto simp: nth_Cons split: nat.splits)
    qed
    then show ?thesis using True by simp
  next
    case False
    have "\<not> row ! k" if "k < length row" for k
    proof
      assume "row ! k"
      then have "(True # v # row) ! 1"
        using Cons.prems[of 0 1 "Suc (Suc k)"] that by simp
      then show False using False by simp
    qed
    then show ?thesis using False by (auto simp: list_all_length nth_Cons split: nat.splits)
  qed
qed

lemma isRun_convex:
  assumes "\<And>i j k. i \<le> j \<Longrightarrow> j \<le> k \<Longrightarrow> k < length row \<Longrightarrow> row ! i \<Longrightarrow> row ! k \<Longrightarrow> row ! j"
  shows "isRun row"
  using assms
proof (induction row)
  case Nil
  then show ?case by (simp add: isRun_def)
next
  case (Cons v row)
  show ?case
  proof (cases v)
    case True
    then show ?thesis using all_false_after_gap[of row] Cons.prems by (simp add: isRun_def)
  next
    case False
    have "isRun row"
    proof (rule Cons.IH)
      fix i j k assume a: "i \<le> j" "j \<le> k" "k < length row" "row ! i" "row ! k"
      show "row ! j" using Cons.prems[of "Suc i" "Suc j" "Suc k"] a by simp
    qed
    then show ?thesis using False by (simp add: isRun_def)
  qed
qed

lemma maskRow_outer:
  assumes "y < h"
  shows "maskRow (extractOuterContour fg w h) w y = map (rowSpan fg w y) [0..<w]"
proof (rule nth_equalityI)
  have "y * w + w \<le> w * h" using assms
    by (metis Suc_leI mult.commute mult_Suc mult_le_mono1 add.commute)
  then show len: "length (maskRow (extractOuterContour fg w h) w y) = length (map (rowSpan fg w y) [0..<w])"
    by (simp add: maskRow_def extractOuterContour_length)
  fix x assume "x < length (maskRow (extractOuterContour fg w h) w y)"
  then have x: "x < w" using len by simp
  then show "maskRow (extractOuterContour fg w h) w y ! x = map (rowSpan fg w y) [0..<w] ! x"
    using assms \<open>y * w + w \<le> w * h\<close>
    by (simp add: maskRow_def extractOuterContour_length extractOuterContour_nth)
qed

lemma outer_contour_rows_run:
  assumes "y < h"
  shows "isRun (maskRow (extractOuterContour fg w h) w y)"
  unfolding maskRow_outer[OF assms]
  by (rule isRun_convex) (auto simp: rowSpan_def)

text \<open>
  C10. For a mask of a \<open>w\<close> by \<open>h\<close> image, \<open>extractOuterContour\<close> keeps every
  foreground pixel, every row of its result is one contiguous run or empty, and
  applying it a second time changes nothing.
\<close>

theorem outer_contour_extensive_and_idempotent:
  assumes "length fg = w * h"
  shows "(\<forall>i. fgAt fg i \<longrightarrow> fgAt (extractOuterContour fg w h) i) \<and>
         (\<forall>y<h. isRun (maskRow (extractOuterContour fg w h) w y)) \<and>
         extractOuterContour (extractOuterContour fg w h) w h = extractOuterContour fg w h"
proof (intro conjI allI impI)
  fix i assume "fgAt fg i"
  moreover from this have "i < w * h" using assms by (simp add: fgAt_def)
  ultimately show "fgAt (extractOuterContour fg w h) i" by (rule outer_contour_extensive[rotated])
next
  fix y assume "y < h"
  then show "isRun (maskRow (extractOuterContour fg w h) w y)" by (rule outer_contour_rows_run)
next
  show "extractOuterContour (extractOuterContour fg w h) w h = extractOuterContour fg w h"
    by (rule outer_contour_idem)
qed

theorem outer_contour_extensive_and_idempotent_witness:
  "length [True, False, True, False, False, False] = 3 * 2 \<and>
   fgAt [True, False, True, False, False, False] 2 \<and>
   fgAt (extractOuterContour [True, False, True, False, False, False] 3 2) 2 \<and>
   isRun (maskRow (extractOuterContour [True, False, True, False, False, False] 3 2) 3 0) \<and>
   extractOuterContour (extractOuterContour [True, False, True, False, False, False] 3 2) 3 2
     = extractOuterContour [True, False, True, False, False, False] 3 2"
proof -
  have len: "length [True, False, True, False, False, False] = 3 * 2" by simp
  have fg2: "fgAt [True, False, True, False, False, False] 2" by (simp add: fgAt_def)
  note t = outer_contour_extensive_and_idempotent[OF len]
  from t fg2 have "fgAt (extractOuterContour [True, False, True, False, False, False] 3 2) 2" by blast
  moreover from t have "isRun (maskRow (extractOuterContour [True, False, True, False, False, False] 3 2) 3 0)"
    by simp
  ultimately show ?thesis using len fg2 t by blast
qed

subsection \<open>Loader and resizer\<close>


lemma stage2_bounds:
  fixes w1 h1 :: int
  assumes pos: "1 \<le> w1" "1 \<le> h1" and big: "w1 * h1 > 400000" and w500: "w1 \<le> 500"
    and noslip: "h1 \<le> 400000 * w1"
  defines "s \<equiv> sqrt (400000 / real_of_int (w1 * h1))"
  shows "0 < s" "s < 1" "1 \<le> \<lfloor>real_of_int w1 * s\<rfloor>" "1 \<le> \<lfloor>real_of_int h1 * s\<rfloor>"
    "\<lfloor>real_of_int w1 * s\<rfloor> * \<lfloor>real_of_int h1 * s\<rfloor> \<le> 400000"
proof -
  have wh: "0 < real_of_int (w1 * h1)" using pos by simp
  define q where "q = 400000 / real_of_int (w1 * h1)"
  have bigr: "400000 < real_of_int (w1 * h1)" using big by (metis of_int_less_iff of_int_numeral)
  have q: "0 < q" "q < 1" using bigr wh unfolding q_def by (simp_all add: divide_less_eq)
  have s2: "s * s = q" unfolding s_def q_def[symmetric] using q by simp
  show s0: "0 < s" unfolding s_def q_def[symmetric] using q by simp
  show s1: "s < 1" unfolding s_def q_def[symmetric] using q
    by (metis real_sqrt_lt_1_iff)
  have ws: "(real_of_int w1 * s) * (real_of_int w1 * s) \<ge> 1"
  proof -
    have "(real_of_int w1 * s) * (real_of_int w1 * s) = real_of_int w1 * real_of_int w1 * q"
      using s2 by (simp add: algebra_simps)
    also have "\<dots> = real_of_int w1 * 400000 / real_of_int h1"
      using pos unfolding q_def by simp
    also have "\<dots> \<ge> 1" using noslip pos
      by (simp add: le_divide_eq)
    finally show ?thesis .
  qed
  have ws1: "1 \<le> real_of_int w1 * s"
  proof (rule ccontr)
    assume "\<not> 1 \<le> real_of_int w1 * s"
    then have "real_of_int w1 * s < 1" by simp
    moreover have "0 \<le> real_of_int w1 * s" using s0 pos by simp
    ultimately have "(real_of_int w1 * s) * (real_of_int w1 * s) < 1 * 1"
      by (intro mult_strict_mono') simp_all
    then show False using ws by simp
  qed
  have hs: "(real_of_int h1 * s) * (real_of_int h1 * s) \<ge> 1"
  proof -
    have "(real_of_int h1 * s) * (real_of_int h1 * s) = real_of_int h1 * real_of_int h1 * q"
      using s2 by (simp add: algebra_simps)
    also have "\<dots> = real_of_int h1 * 400000 / real_of_int w1"
      using pos unfolding q_def by simp
    also have "\<dots> \<ge> 1" using w500 pos
      by (simp add: le_divide_eq)
    finally show ?thesis .
  qed
  have hs1: "1 \<le> real_of_int h1 * s"
  proof (rule ccontr)
    assume "\<not> 1 \<le> real_of_int h1 * s"
    then have "real_of_int h1 * s < 1" by simp
    moreover have "0 \<le> real_of_int h1 * s" using s0 pos by simp
    ultimately have "(real_of_int h1 * s) * (real_of_int h1 * s) < 1 * 1"
      by (intro mult_strict_mono') simp_all
    then show False using hs by simp
  qed
  show fw: "1 \<le> \<lfloor>real_of_int w1 * s\<rfloor>" using ws1 by (simp add: le_floor_iff)
  show fh: "1 \<le> \<lfloor>real_of_int h1 * s\<rfloor>" using hs1 by (simp add: le_floor_iff)
  have "real_of_int (\<lfloor>real_of_int w1 * s\<rfloor> * \<lfloor>real_of_int h1 * s\<rfloor>)
        = real_of_int \<lfloor>real_of_int w1 * s\<rfloor> * real_of_int \<lfloor>real_of_int h1 * s\<rfloor>" by simp
  also have "\<dots> \<le> (real_of_int w1 * s) * (real_of_int h1 * s)"
    using fw fh by (intro mult_mono) simp_all
  also have "\<dots> = real_of_int (w1 * h1) * q" using s2 by (simp add: algebra_simps)
  also have "\<dots> = 400000" using pos unfolding q_def by simp
  finally have "real_of_int (\<lfloor>real_of_int w1 * s\<rfloor> * \<lfloor>real_of_int h1 * s\<rfloor>) \<le> 400000" .
  then show "\<lfloor>real_of_int w1 * s\<rfloor> * \<lfloor>real_of_int h1 * s\<rfloor> \<le> 400000"
    by (metis of_int_le_iff of_int_numeral)
qed

lemma stage2_h_floor:
  fixes w1 h1 :: int
  assumes pos: "1 \<le> w1" "1 \<le> h1" and big: "w1 * h1 > 400000" and w500: "w1 \<le> 500"
  defines "s \<equiv> sqrt (400000 / real_of_int (w1 * h1))"
  shows "0 < s" "s < 1" "1 \<le> \<lfloor>real_of_int h1 * s\<rfloor>" "\<lfloor>real_of_int w1 * s\<rfloor> \<le> 500"
proof -
  have bigr: "400000 < real_of_int (w1 * h1)" using big by (metis of_int_less_iff of_int_numeral)
  define q where "q = 400000 / real_of_int (w1 * h1)"
  have q: "0 < q" "q < 1" using bigr unfolding q_def by (simp_all add: divide_less_eq)
  have s2: "s * s = q" unfolding s_def q_def[symmetric] using q by simp
  show s0: "0 < s" unfolding s_def q_def[symmetric] using q by simp
  show s1: "s < 1" unfolding s_def q_def[symmetric] using q
    by (metis real_sqrt_lt_1_iff)
  have hs: "(real_of_int h1 * s) * (real_of_int h1 * s) \<ge> 1"
  proof -
    have "(real_of_int h1 * s) * (real_of_int h1 * s) = real_of_int h1 * real_of_int h1 * q"
      using s2 by (simp add: algebra_simps)
    also have "\<dots> = real_of_int h1 * 400000 / real_of_int w1"
      using pos unfolding q_def by simp
    also have "\<dots> \<ge> 1" using w500 pos
      by (simp add: le_divide_eq)
    finally show ?thesis .
  qed
  have hs1: "1 \<le> real_of_int h1 * s"
  proof (rule ccontr)
    assume "\<not> 1 \<le> real_of_int h1 * s"
    then have "real_of_int h1 * s < 1" by simp
    moreover have "0 \<le> real_of_int h1 * s" using s0 pos by simp
    ultimately have "(real_of_int h1 * s) * (real_of_int h1 * s) < 1 * 1"
      by (intro mult_strict_mono') simp_all
    then show False using hs by simp
  qed
  show "1 \<le> \<lfloor>real_of_int h1 * s\<rfloor>" using hs1 by (simp add: le_floor_iff)
  have "real_of_int w1 * s \<le> real_of_int w1 * 1" using s1 pos by (intro mult_left_mono) simp_all
  then have "real_of_int w1 * s \<le> 500" using w500 by simp
  then have "\<lfloor>real_of_int w1 * s\<rfloor> \<le> \<lfloor>500::real\<rfloor>" by (rule floor_mono)
  then show "\<lfloor>real_of_int w1 * s\<rfloor> \<le> 500" by simp
qed

lemma aspect_after_scaling:
  fixes w0 h0 w1 h1 :: int and f1 s :: real
  assumes f1: "0 < f1" "f1 \<le> 1" and s: "0 < s" "s \<le> 1"
    and w1: "real_of_int w1 = real_of_int w0 * f1"
    and h1: "real_of_int h1 \<le> real_of_int h0 * f1" "real_of_int h0 * f1 < real_of_int h1 + 1"
  shows "\<exists>f. 0 < f \<and> f \<le> 1 \<and>
           real_of_int \<lfloor>real_of_int w1 * s\<rfloor> \<le> real_of_int w0 * f \<and>
           real_of_int w0 * f < real_of_int \<lfloor>real_of_int w1 * s\<rfloor> + 1 \<and>
           real_of_int \<lfloor>real_of_int h1 * s\<rfloor> \<le> real_of_int h0 * f \<and>
           real_of_int h0 * f < real_of_int \<lfloor>real_of_int h1 * s\<rfloor> + 2"
proof (intro exI[of _ "f1 * s"] conjI)
  show "0 < f1 * s" using f1 s by simp
  show "f1 * s \<le> 1" using f1 s by (simp add: mult_le_one)
  have e: "real_of_int w0 * (f1 * s) = real_of_int w1 * s" using w1 by simp
  show "real_of_int \<lfloor>real_of_int w1 * s\<rfloor> \<le> real_of_int w0 * (f1 * s)"
    unfolding e by simp
  show "real_of_int w0 * (f1 * s) < real_of_int \<lfloor>real_of_int w1 * s\<rfloor> + 1"
    unfolding e by linarith
  have "real_of_int \<lfloor>real_of_int h1 * s\<rfloor> \<le> real_of_int h1 * s" by simp
  also have "\<dots> \<le> (real_of_int h0 * f1) * s" using h1(1) s by (intro mult_right_mono) simp_all
  finally show "real_of_int \<lfloor>real_of_int h1 * s\<rfloor> \<le> real_of_int h0 * (f1 * s)"
    by (simp add: mult.assoc)
  have "real_of_int h0 * (f1 * s) = (real_of_int h0 * f1) * s" by simp
  also have "\<dots> < (real_of_int h1 + 1) * s" using h1(2) s by (intro mult_strict_right_mono) simp_all
  also have "\<dots> = real_of_int h1 * s + s" by (simp add: algebra_simps)
  also have "\<dots> \<le> real_of_int h1 * s + 1" using s by simp
  also have "\<dots> < (real_of_int \<lfloor>real_of_int h1 * s\<rfloor> + 1) + 1" by linarith
  finally show "real_of_int h0 * (f1 * s) < real_of_int \<lfloor>real_of_int h1 * s\<rfloor> + 2" by simp
qed

lemma resize_unfold:
  assumes "1 \<le> w0" "1 \<le> h0" "widthClamp w0 h0 = (w1, h1)"
  shows "resize w0 h0 =
    (if w1 * h1 > 400000
     then (let w2 = max 1 \<lfloor>real_of_int w1 * sqrt (400000 / real_of_int (w1 * h1))\<rfloor>;
               h2 = max 1 \<lfloor>real_of_int h1 * sqrt (400000 / real_of_int (w1 * h1))\<rfloor>
           in Some (w2, h2))
     else if h1 < 1 then None else Some (w1, h1))"
proof -
  have step1: "(if w0 > MAX_WIDTH
                then (MAX_WIDTH, \<lfloor>(real_of_int h0 * real_of_int MAX_WIDTH) / real_of_int w0\<rfloor>)
                else (w0, h0)) = (w1, h1)"
    using assms(3) by (auto simp: widthClamp_def MAX_WIDTH_def split: if_splits)
  have w1: "1 \<le> w1" using assms by (auto simp: widthClamp_def split: if_splits)
  have "resize w0 h0 =
     (let (w2, h2) = (if w1 * h1 > MAX_PIXELS
                        then let scale = sqrt (real_of_int MAX_PIXELS / real_of_int (w1 * h1))
                             in (max 1 \<lfloor>real_of_int w1 * scale\<rfloor>, max 1 \<lfloor>real_of_int h1 * scale\<rfloor>)
                        else (w1, h1))
        in if w2 < 1 \<or> h2 < 1 then None else Some (w2, h2))"
    unfolding resize_def step1 using assms(1,2) by simp
  also have "\<dots> = (if w1 * h1 > 400000
     then (let w2 = max 1 \<lfloor>real_of_int w1 * sqrt (400000 / real_of_int (w1 * h1))\<rfloor>;
               h2 = max 1 \<lfloor>real_of_int h1 * sqrt (400000 / real_of_int (w1 * h1))\<rfloor>
           in Some (w2, h2))
     else if h1 < 1 then None else Some (w1, h1))"
    using w1 by (simp add: MAX_PIXELS_def Let_def)
  finally show ?thesis .
qed

lemma widthClamp_props:
  assumes "1 \<le> w0" "1 \<le> h0" "widthClamp w0 h0 = (w1, h1)"
  shows "1 \<le> w1" "w1 \<le> 500" "0 \<le> h1" "h1 < 1 \<longleftrightarrow> 500 * h0 < w0"
    "h0 \<le> 400000 * w0 \<Longrightarrow> h1 \<le> 400000 * w1"
    "\<exists>f1. 0 < f1 \<and> f1 \<le> 1 \<and> real_of_int w1 = real_of_int w0 * f1 \<and>
        real_of_int h1 \<le> real_of_int h0 * f1 \<and> real_of_int h0 * f1 < real_of_int h1 + 1"
proof -
  show "1 \<le> w1" "w1 \<le> 500" using assms by (auto simp: widthClamp_def split: if_splits)
  show "0 \<le> h1" using assms by (auto simp: widthClamp_def split: if_splits)
  show "h1 < 1 \<longleftrightarrow> 500 * h0 < w0"
  proof (cases "w0 > 500")
    case False
    then show ?thesis using assms by (auto simp: widthClamp_def)
  next
    case True
    then have h1: "h1 = \<lfloor>(real_of_int h0 * 500) / real_of_int w0\<rfloor>" using assms by (simp add: widthClamp_def)
    have "h1 < 1 \<longleftrightarrow> (real_of_int h0 * 500) / real_of_int w0 < 1"
      unfolding h1 by (simp add: floor_less_iff)
    also have "\<dots> \<longleftrightarrow> real_of_int h0 * 500 < real_of_int w0" using True by (simp add: divide_less_eq)
    also have "\<dots> \<longleftrightarrow> 500 * h0 < w0"
      by (metis mult.commute of_int_less_iff of_int_mult of_int_numeral)
    finally show ?thesis .
  qed
  show "h1 \<le> 400000 * w1" if ns: "h0 \<le> 400000 * w0"
  proof (cases "w0 > 500")
    case False
    then show ?thesis using assms ns by (auto simp: widthClamp_def)
  next
    case True
    then have h1: "h1 = \<lfloor>(real_of_int h0 * 500) / real_of_int w0\<rfloor>" and w1: "w1 = 500"
      using assms by (simp_all add: widthClamp_def)
    have "real_of_int h0 \<le> 400000 * real_of_int w0" using ns
      by (metis of_int_le_iff of_int_mult of_int_numeral)
    then have "(real_of_int h0 * 500) / real_of_int w0 \<le> 200000000" using True
      by (simp add: divide_le_eq)
    then have "\<lfloor>(real_of_int h0 * 500) / real_of_int w0\<rfloor> \<le> \<lfloor>200000000::real\<rfloor>" by (rule floor_mono)
    then show ?thesis unfolding h1 w1 by simp
  qed
  show "\<exists>f1. 0 < f1 \<and> f1 \<le> 1 \<and> real_of_int w1 = real_of_int w0 * f1 \<and>
        real_of_int h1 \<le> real_of_int h0 * f1 \<and> real_of_int h0 * f1 < real_of_int h1 + 1"
  proof (cases "w0 > 500")
    case False
    then show ?thesis using assms by (intro exI[of _ 1]) (auto simp: widthClamp_def)
  next
    case True
    then have h1: "h1 = \<lfloor>(real_of_int h0 * 500) / real_of_int w0\<rfloor>" and w1: "w1 = 500"
      using assms by (simp_all add: widthClamp_def)
    have e: "real_of_int h0 * (500 / real_of_int w0) = (real_of_int h0 * 500) / real_of_int w0" by simp
    show ?thesis
      apply (intro exI[of _ "500 / real_of_int w0"] conjI)
      subgoal using True by simp
      subgoal using True by simp
      subgoal using True w1 by simp
      subgoal unfolding e h1 by simp
      subgoal unfolding e h1 by linarith
      done
  qed
qed

lemma resize_dimensions_aux:
  assumes "1 \<le> w0" "1 \<le> h0"
  shows "(resize w0 h0 = None \<longleftrightarrow> 500 * h0 < w0) \<and>
         (\<forall>w h. resize w0 h0 = Some (w, h) \<longrightarrow>
            1 \<le> w \<and> w \<le> 500 \<and> 1 \<le> h \<and>
            (h0 \<le> 400000 * w0 \<longrightarrow>
               w * h \<le> 400000 \<and>
               (\<exists>f. 0 < f \<and> f \<le> 1 \<and>
                    real_of_int w \<le> real_of_int w0 * f \<and> real_of_int w0 * f < real_of_int w + 1 \<and>
                    real_of_int h \<le> real_of_int h0 * f \<and> real_of_int h0 * f < real_of_int h + 2)))"
proof -
  obtain w1 h1 where wc: "widthClamp w0 h0 = (w1, h1)" by fastforce
  note p = widthClamp_props[OF assms wc]
  note u = resize_unfold[OF assms wc]
  from p(6) obtain f1 where f1: "0 < f1" "f1 \<le> 1" "real_of_int w1 = real_of_int w0 * f1"
    "real_of_int h1 \<le> real_of_int h0 * f1" "real_of_int h0 * f1 < real_of_int h1 + 1" by blast
  show ?thesis
  proof (cases "w1 * h1 > 400000")
    case True
    define s where "s = sqrt (400000 / real_of_int (w1 * h1))"
    have h1: "1 \<le> h1"
    proof (rule ccontr)
      assume "\<not> 1 \<le> h1"
      then have "h1 = 0" using p(3) by simp
      then show False using True by simp
    qed
    note s = stage2_h_floor[OF p(1) h1 True p(2), folded s_def]
    have r: "resize w0 h0 = Some (max 1 \<lfloor>real_of_int w1 * s\<rfloor>, \<lfloor>real_of_int h1 * s\<rfloor>)"
      using u True s(3) by (simp add: Let_def s_def max_def)
    have nonone: "\<not> 500 * h0 < w0" using p(4) h1 by simp
    have slipfree: "max 1 \<lfloor>real_of_int w1 * s\<rfloor> * \<lfloor>real_of_int h1 * s\<rfloor> \<le> 400000 \<and>
               (\<exists>f. 0 < f \<and> f \<le> 1 \<and>
                    real_of_int (max 1 \<lfloor>real_of_int w1 * s\<rfloor>) \<le> real_of_int w0 * f \<and>
                    real_of_int w0 * f < real_of_int (max 1 \<lfloor>real_of_int w1 * s\<rfloor>) + 1 \<and>
                    real_of_int \<lfloor>real_of_int h1 * s\<rfloor> \<le> real_of_int h0 * f \<and>
                    real_of_int h0 * f < real_of_int \<lfloor>real_of_int h1 * s\<rfloor> + 2)"
      if ns: "h0 \<le> 400000 * w0"
    proof -
      note b = stage2_bounds[OF p(1) h1 True p(2) p(5)[OF ns], folded s_def]
      have m: "max 1 \<lfloor>real_of_int w1 * s\<rfloor> = \<lfloor>real_of_int w1 * s\<rfloor>" using b(3) by simp
      show ?thesis unfolding m using b(5) aspect_after_scaling[OF f1(1,2) s(1) less_imp_le[OF s(2)] f1(3,4,5)]
        by blast
    qed
    show ?thesis unfolding r using nonone s(3,4) slipfree by auto
  next
    case False
    have r: "resize w0 h0 = (if h1 < 1 then None else Some (w1, h1))" using u False by simp
    have asp: "\<exists>f. 0 < f \<and> f \<le> 1 \<and>
                    real_of_int w1 \<le> real_of_int w0 * f \<and> real_of_int w0 * f < real_of_int w1 + 1 \<and>
                    real_of_int h1 \<le> real_of_int h0 * f \<and> real_of_int h0 * f < real_of_int h1 + 2"
      using f1 by (intro exI[of _ f1]) auto
    show ?thesis unfolding r using p(1,2,4) False asp by auto
  qed
qed

lemma resize_slip: "resize 1 1600000 = Some (1, 800000)"
proof -
  have "sqrt (400000 / 1600000) = 1 / 2"
    by (rule real_sqrt_unique) (simp_all add: power2_eq_square)
  then have sq: "sqrt (1 / 4) = 1 / 2" by simp
  show ?thesis
    by (simp add: resize_def MAX_WIDTH_def MAX_PIXELS_def Let_def sq)
qed




subsection \<open>The grayscale image\<close>

lemma fold_invariant:
  "(\<And>a s. a \<in> set xs \<Longrightarrow> I s \<Longrightarrow> I (f a s)) \<Longrightarrow> I s \<Longrightarrow> I (fold f xs s)"
  by (induction xs arbitrary: s) auto

lemma toGrayscale_concat:
  "toGrayscale (concat (map (\<lambda>i. case px i of (r, g, b, a) \<Rightarrow> [r, g, b, a]) xs))
   = map (\<lambda>i. case px i of (r, g, b, a) \<Rightarrow>
            0.299 * real (unat r) + 0.587 * real (unat g) + 0.114 * real (unat b)) xs"
  by (induction xs) (auto split: prod.splits)

lemma luma_real:
  fixes a b c :: real
  assumes "0 \<le> a" "a \<le> 255" "0 \<le> b" "b \<le> 255" "0 \<le> c" "c \<le> 255"
  shows "0 \<le> 0.299 * a + 0.587 * b + 0.114 * c" "0.299 * a + 0.587 * b + 0.114 * c \<le> 255"
  using assms by simp_all

lemma luma_range:
  fixes r g b :: "8 word"
  shows "0 \<le> 0.299 * real (unat r) + 0.587 * real (unat g) + 0.114 * real (unat b)"
    and "0.299 * real (unat r) + 0.587 * real (unat g) + 0.114 * real (unat b) \<le> 255"
proof -
  have "unat r < 256" "unat g < 256" "unat b < 256"
    using unsigned_less[of r, where ?'a = nat] unsigned_less[of g, where ?'a = nat]
      unsigned_less[of b, where ?'a = nat] by simp_all
  then have "unat r \<le> 255" "unat g \<le> 255" "unat b \<le> 255" by simp_all
  then have u: "real (unat r) \<le> 255" "real (unat g) \<le> 255" "real (unat b) \<le> 255"
    by (metis of_nat_le_iff of_nat_numeral)+
  have l: "0 \<le> real (unat r)" "0 \<le> real (unat g)" "0 \<le> real (unat b)" by (rule of_nat_0_le_iff)+
  show "0.299 * real (unat r) + 0.587 * real (unat g) + 0.114 * real (unat b) \<le> 255"
    by (rule luma_real(2)[OF l(1) u(1) l(2) u(2) l(3) u(3)])
  show "0 \<le> 0.299 * real (unat r) + 0.587 * real (unat g) + 0.114 * real (unat b)"
    by (rule luma_real(1)[OF l(1) u(1) l(2) u(2) l(3) u(3)])
qed

lemma toGrayscale_getImageData:
  "length (toGrayscale (getImageData img w h)) = w * h"
  "inRange (toGrayscale (getImageData img w h))"
  unfolding getImageData_def toGrayscale_concat inRange_def
  using luma_range by (auto simp: list_all_iff split: prod.splits)

lemma contrastStretch_props:
  "length (contrastStretch gray) = length gray" "inRange (contrastStretch gray)"
  by (auto simp: contrastStretch_def Let_def inRange_def list_all_iff)

lemma grid_nat_index:
  fixes Y X :: int
  assumes "0 \<le> Y" "Y < int h" "0 \<le> X" "X < int w"
  shows "nat (Y * int w + X) < w * h"
proof -
  have "Y * int w + X < Y * int w + int w" using assms by simp
  also have "\<dots> = (Y + 1) * int w" by (simp add: algebra_simps)
  also have "\<dots> \<le> int h * int w" using assms by (intro mult_right_mono) simp_all
  finally have "Y * int w + X < int (w * h)" by (simp add: mult.commute)
  moreover have "0 \<le> Y * int w + X" using assms by simp
  ultimately show ?thesis by linarith
qed

lemma boxSum_range:
  assumes g: "inRange gray" "length gray = w * h"
    and ds: "\<forall>d\<in>set ds. 0 \<le> int y + d \<and> int y + d < int h \<and> 0 \<le> int x + d \<and> int x + d < int w"
  shows "0 \<le> boxSum gray w y x ds" "boxSum gray w y x ds \<le> 255 * real (length ds * length ds)"
proof -
  have el: "0 \<le> gray ! nat ((int y + dy) * int w + (int x + dx)) \<and>
            gray ! nat ((int y + dy) * int w + (int x + dx)) \<le> 255"
    if "dy \<in> set ds" "dx \<in> set ds" for dy dx
  proof -
    have "nat ((int y + dy) * int w + (int x + dx)) < length gray"
      unfolding g(2) using ds that by (intro grid_nat_index) auto
    then show ?thesis using g(1) by (auto simp: inRange_def list_all_length)
  qed
  have inner: "0 \<le> (\<Sum>dx\<leftarrow>ds. gray ! nat ((int y + dy) * int w + (int x + dx))) \<and>
        (\<Sum>dx\<leftarrow>ds. gray ! nat ((int y + dy) * int w + (int x + dx))) \<le> 255 * real (length ds)"
    if "dy \<in> set ds" for dy
  proof
    show "0 \<le> (\<Sum>dx\<leftarrow>ds. gray ! nat ((int y + dy) * int w + (int x + dx)))"
      using el[OF that] by (intro sum_list_nonneg) auto
    have "(\<Sum>dx\<leftarrow>ds. gray ! nat ((int y + dy) * int w + (int x + dx))) \<le> (\<Sum>dx\<leftarrow>ds. 255)"
      using el[OF that] by (intro sum_list_mono) auto
    then show "(\<Sum>dx\<leftarrow>ds. gray ! nat ((int y + dy) * int w + (int x + dx))) \<le> 255 * real (length ds)"
      by (simp add: sum_list_triv)
  qed
  show "0 \<le> boxSum gray w y x ds"
    unfolding boxSum_def using inner by (intro sum_list_nonneg) auto
  have "boxSum gray w y x ds \<le> (\<Sum>dy\<leftarrow>ds. 255 * real (length ds))"
    unfolding boxSum_def using inner by (intro sum_list_mono) auto
  then show "boxSum gray w y x ds \<le> 255 * real (length ds * length ds)"
    by (simp add: sum_list_triv algebra_simps)
qed

lemma inRange_update:
  "inRange out \<Longrightarrow> 0 \<le> v \<Longrightarrow> v \<le> 255 \<Longrightarrow> inRange (out[i := v])"
  unfolding inRange_def list_all_iff using set_update_subset_insert[of out i v] by auto

lemma blur3x3_props:
  assumes "inRange gray" "length gray = w * h"
  shows "length (blur3x3 gray w h) = w * h \<and> inRange (blur3x3 gray w h)"
  unfolding blur3x3_def
proof (rule fold_invariant[where I = "\<lambda>out. length out = w * h \<and> inRange out"])
  show "length gray = w * h \<and> inRange gray" using assms by simp
next
  fix y out assume y: "y \<in> set [1..<h - 1]" and out: "length out = w * h \<and> inRange out"
  show "length (fold (\<lambda>x out. out[y * w + x := boxSum gray w y x [- 1, 0, 1] / 9]) [1..<w - 1] out) = w * h \<and>
        inRange (fold (\<lambda>x out. out[y * w + x := boxSum gray w y x [- 1, 0, 1] / 9]) [1..<w - 1] out)"
  proof (rule fold_invariant[where I = "\<lambda>out. length out = w * h \<and> inRange out"])
    show "length out = w * h \<and> inRange out" by (rule out)
  next
    fix x out' assume x: "x \<in> set [1..<w - 1]" and out': "length out' = w * h \<and> inRange out'"
    have ds: "\<forall>d\<in>set [- 1, 0, 1]. 0 \<le> int y + d \<and> int y + d < int h \<and> 0 \<le> int x + d \<and> int x + d < int w"
      using x y by auto
    note b = boxSum_range[OF assms ds]
    have "0 \<le> boxSum gray w y x [- 1, 0, 1] / 9" "boxSum gray w y x [- 1, 0, 1] / 9 \<le> 255"
      using b by simp_all
    then show "length (out'[y * w + x := boxSum gray w y x [- 1, 0, 1] / 9]) = w * h \<and>
               inRange (out'[y * w + x := boxSum gray w y x [- 1, 0, 1] / 9])"
      using out' by (simp add: inRange_update)
  qed
qed

lemma blur5x5_props:
  assumes "inRange gray" "length gray = w * h"
  shows "length (blur5x5 gray w h) = w * h \<and> inRange (blur5x5 gray w h)"
  unfolding blur5x5_def
proof (rule fold_invariant[where I = "\<lambda>out. length out = w * h \<and> inRange out"])
  show "length gray = w * h \<and> inRange gray" using assms by simp
next
  fix y out assume y: "y \<in> set [2..<h - 2]" and out: "length out = w * h \<and> inRange out"
  show "length (fold (\<lambda>x out. out[y * w + x := boxSum gray w y x [- 2, - 1, 0, 1, 2] / 25]) [2..<w - 2] out) = w * h \<and>
        inRange (fold (\<lambda>x out. out[y * w + x := boxSum gray w y x [- 2, - 1, 0, 1, 2] / 25]) [2..<w - 2] out)"
  proof (rule fold_invariant[where I = "\<lambda>out. length out = w * h \<and> inRange out"])
    show "length out = w * h \<and> inRange out" by (rule out)
  next
    fix x out' assume x: "x \<in> set [2..<w - 2]" and out': "length out' = w * h \<and> inRange out'"
    have ds: "\<forall>d\<in>set [- 2, - 1, 0, 1, 2]. 0 \<le> int y + d \<and> int y + d < int h \<and> 0 \<le> int x + d \<and> int x + d < int w"
      using x y by auto
    note b = boxSum_range[OF assms ds]
    have "0 \<le> boxSum gray w y x [- 2, - 1, 0, 1, 2] / 25" "boxSum gray w y x [- 2, - 1, 0, 1, 2] / 25 \<le> 255"
      using b by simp_all
    then show "length (out'[y * w + x := boxSum gray w y x [- 2, - 1, 0, 1, 2] / 25]) = w * h \<and>
               inRange (out'[y * w + x := boxSum gray w y x [- 2, - 1, 0, 1, 2] / 25])"
      using out' by (simp add: inRange_update)
  qed
qed

lemma grayImage_props:
  "length (grayImage img options w h) = w * h" "inRange (grayImage img options w h)"
proof -
  define g0 where "g0 = toGrayscale (getImageData img w h)"
  define g1 where "g1 = (if opt_contrastStretch options = Some True then contrastStretch g0 else g0)"
  have g0: "length g0 = w * h" "inRange g0" unfolding g0_def by (rule toGrayscale_getImageData)+
  have g1: "length g1 = w * h" "inRange g1" unfolding g1_def using g0 contrastStretch_props by auto
  have e: "grayImage img options w h =
      (let blurLevel = (case opt_blur options of None \<Rightarrow> 1 | Some b \<Rightarrow> b)
       in if blurLevel = 1 then blur3x3 g1 w h else if blurLevel = 2 then blur5x5 g1 w h else g1)"
    by (simp add: grayImage_def g0_def g1_def Let_def)
  show "length (grayImage img options w h) = w * h" "inRange (grayImage img options w h)"
    unfolding e Let_def using g1 blur3x3_props[OF g1(2,1)] blur5x5_props[OF g1(2,1)] by auto
qed

subsection \<open>Polarity fallback\<close>

lemma binarize_length: "length (binarize gray t d) = length gray"
  by (simp add: binarize_def)

lemma fracDegenerate_fraction:
  "length msk \<noteq> 0 \<Longrightarrow>
   fracDegenerate (countTrue msk) (length msk) = (fgFraction msk < 0.12 \<or> fgFraction msk > 0.88)"
  by (simp add: fracDegenerate_def fgFraction_def)

lemma fracReasonable_fraction:
  "length msk \<noteq> 0 \<Longrightarrow>
   fracReasonable (countTrue msk) (length msk) = (0.12 \<le> fgFraction msk \<and> fgFraction msk \<le> 0.88)"
  by (simp add: fracReasonable_def fgFraction_def)

lemma binarize_clamp_low:
  assumes "\<forall>g\<in>set gray. 0 \<le> g \<and> g \<le> 255" "0 \<le> thresh" "thresh \<le> 255"
  shows "binarize gray (max 0 (min 255 (thresh - 30))) False = binarize gray (thresh - 30) False"
  using assms by (auto simp: binarize_def)

lemma binarize_clamp_high:
  assumes "\<forall>g\<in>set gray. 0 \<le> g \<and> g \<le> 255" "0 \<le> thresh" "thresh \<le> 255"
  shows "binarize gray (max 0 (min 255 (thresh + 30))) True = binarize gray (thresh + 30) True"
  using assms by (auto simp: binarize_def)

lemma autoBinarize_three_tier:
  assumes ne: "gray \<noteq> []"
    and range: "\<forall>g\<in>set gray. 0 \<le> g \<and> g \<le> 255" and t: "0 \<le> thresh" "thresh \<le> 255"
  shows "autoBinarize gray w h thresh = threeTierFallback gray w h thresh"
proof -
  from ne have len: "\<And>t d. length (binarize gray t d) \<noteq> 0" by (simp add: binarize_length)
  have d: "\<And>t d. fracDegenerate (countTrue (binarize gray t d)) (length gray)
      = (fgFraction (binarize gray t d) < 0.12 \<or> fgFraction (binarize gray t d) > 0.88)"
    using fracDegenerate_fraction[OF len] by (simp add: binarize_length)
  have r: "\<And>t d. fracReasonable (countTrue (binarize gray t d)) (length gray)
      = (0.12 \<le> fgFraction (binarize gray t d) \<and> fgFraction (binarize gray t d) \<le> 0.88)"
    using fracReasonable_fraction[OF len] by (simp add: binarize_length)
  show ?thesis
  proof (cases "fst (detectBackgroundColor gray w h)")
    case True
    then show ?thesis
      unfolding autoBinarize_def threeTierFallback_def Let_def
      by (simp add: d r binarize_clamp_low[OF range t] split: if_splits)
  next
    case False
    then show ?thesis
      unfolding autoBinarize_def threeTierFallback_def Let_def
      by (simp add: d r binarize_clamp_high[OF range t] split: if_splits)
  qed
qed

text \<open>
  C6. With \<open>options.invert\<close> unset, the mask and the polarity that the pipeline
  computes from its grayscale image and its biased threshold are those of the
  three-tier fallback: the border-heuristic polarity; the flipped polarity when the
  foreground fraction is below 12% or above 88%; and, when the fraction is still
  outside, the threshold shifted by 30 toward the background value with the
  background-implied polarity, adopted exactly when its fraction lies in
  \<open>[12%, 88%]\<close>. The clamp of the shifted threshold to \<open>[0, 255]\<close> does not change
  the mask, since every intensity lies in that interval.
\<close>

theorem polarity_three_tier_fallback:
  assumes "opt_invert options = None" and "0 < w" and "0 < h"
  shows "selectForeground (grayImage img options w h) w h
           (biasedThreshold (grayImage img options w h) (opt_thresholdBias options))
           (opt_invert options)
         = fst (threeTierFallback (grayImage img options w h) w h
                  (biasedThreshold (grayImage img options w h) (opt_thresholdBias options))) \<and>
         autoBinarize (grayImage img options w h) w h
           (biasedThreshold (grayImage img options w h) (opt_thresholdBias options))
         = threeTierFallback (grayImage img options w h) w h
             (biasedThreshold (grayImage img options w h) (opt_thresholdBias options))"
proof -
  let ?gray = "grayImage img options w h"
  let ?t = "biasedThreshold ?gray (opt_thresholdBias options)"
  have "length ?gray = w * h" by (rule grayImage_props)
  then have ne: "?gray \<noteq> []" using assms(2,3) by auto
  have range: "\<forall>g\<in>set ?gray. 0 \<le> g \<and> g \<le> 255"
    using grayImage_props(2)[of img options w h] by (simp add: inRange_def list_all_iff)
  have t: "0 \<le> ?t" "?t \<le> 255" by (simp_all add: biasedThreshold_def)
  have "autoBinarize ?gray w h ?t = threeTierFallback ?gray w h ?t"
    by (rule autoBinarize_three_tier[OF ne range t])
  then show ?thesis using assms(1) by (simp add: selectForeground_def)
qed

subsection \<open>From the mask to the profile\<close>

lemma medianFilter_length: "length (medianFilter arr hw) = length arr"
  by (simp add: medianFilter_def Let_def)

lemma rawPoints_length: "length (rawPoints smoothed maxRadius) = length smoothed"
  by (simp add: rawPoints_def Let_def)

lemma rawPoints_unit:
  assumes "p \<in> set (rawPoints smoothed maxRadius)"
  shows "inUnitSquare p"
proof -
  let ?len = "length smoothed"
  from assms obtain i where i: "i < ?len"
    and p: "p = \<lparr>point_x = (if maxRadius > 0 then min 1 (real (smoothed ! i) / real maxRadius) else 0),
                 point_y = (if ?len > 1 then 1 - real i / (real ?len - 1) else 0.5)\<rparr>"
    by (auto simp: rawPoints_def Let_def)
  have x: "0 \<le> point_x p \<and> point_x p \<le> 1" unfolding p by simp
  have y: "0 \<le> point_y p \<and> point_y p \<le> 1"
  proof (cases "?len > 1")
    case False
    then show ?thesis unfolding p by simp
  next
    case True
    then have "real i \<le> real ?len - 1" using i by linarith
    moreover have "0 < real ?len - 1" using True by simp
    ultimately have "0 \<le> real i / (real ?len - 1)" "real i / (real ?len - 1) \<le> 1"
      by simp_all
    then show ?thesis unfolding p using True by simp
  qed
  show ?thesis using x y by (simp add: inUnitSquare_def)
qed

lemma nearest_fold_mem:
  "fst acc \<in> insert (fst acc) (set ps) \<Longrightarrow>
   fst (fold (\<lambda>p (best, bestDy).
                let dy = \<bar>point_y p - yTarget\<bar>
                in if dy < bestDy then (p, dy) else (best, bestDy)) ps acc) \<in> insert (fst acc) (set ps)"
proof (induction ps arbitrary: acc)
  case Nil
  then show ?case by simp
next
  case (Cons p ps)
  obtain best bestDy where acc: "acc = (best, bestDy)" by (cases acc)
  show ?case
  proof (cases "\<bar>point_y p - yTarget\<bar> < bestDy")
    case True
    then show ?thesis using Cons.IH[of "(p, \<bar>point_y p - yTarget\<bar>)"] by (auto simp: acc Let_def)
  next
    case False
    then show ?thesis using Cons.IH[of "(best, bestDy)"] by (auto simp: acc Let_def)
  qed
qed

lemma nearestPoint_mem:
  assumes "pts \<noteq> []"
  shows "\<exists>p. nearestPoint pts yTarget = Inr p \<and> p \<in> set pts"
proof -
  from assms obtain p0 ps where pts: "pts = p0 # ps" by (cases pts) auto
  show ?thesis unfolding pts nearestPoint_def
    using nearest_fold_mem[of "(p0, \<bar>point_y p0 - yTarget\<bar>)" ps yTarget] by auto
qed

lemma downsample_ok:
  assumes "pts \<noteq> []"
  shows "\<exists>out. downsample pts targetPoints ks = Inr out \<and> length out = length ks \<and> set out \<subseteq> set pts"
proof (induction ks)
  case Nil
  then show ?case by simp
next
  case (Cons k ks)
  then obtain out where out: "downsample pts targetPoints ks = Inr out" "length out = length ks"
    "set out \<subseteq> set pts" by blast
  let ?yT = "if targetPoints > 1 then real k / (real_of_int targetPoints - 1) else 0.5"
  from nearestPoint_mem[OF assms, of ?yT] obtain p where p: "nearestPoint pts ?yT = Inr p" "p \<in> set pts"
    by blast
  show ?case using out p by (simp add: Let_def)
qed

lemma sorted_hd_min:
  assumes "sorted (map f ys)" "p \<in> set ys"
  shows "f (hd ys) \<le> (f p :: real)"
  using assms by (cases ys) auto

lemma sorted_last_max:
  assumes "sorted (map f ys)" "p \<in> set ys"
  shows "(f p :: real) \<le> f (last ys)"
proof -
  from assms(2) obtain i where i: "i < length ys" "ys ! i = p" by (auto simp: in_set_conv_nth)
  have ne: "ys \<noteq> []" using assms(2) by auto
  have "map f ys ! i \<le> map f ys ! (length ys - 1)"
    using assms(1) i by (intro sorted_nth_mono) auto
  then show ?thesis using i ne by (simp add: last_conv_nth)
qed

lemma finishProfile_ok:
  assumes len: "2 \<le> length out" and unit: "\<forall>p\<in>set out. inUnitSquare p"
  shows "\<exists>res. finishProfile out = Inr res \<and> length res = length out \<and>
           sorted (map point_y res) \<and> point_y (hd res) = 0 \<and> point_y (last res) = 1 \<and>
           (\<forall>p\<in>set res. inUnitSquare p)"
proof -
  define out1 where "out1 = out[0 := (out ! 0)\<lparr>point_y := 0\<rparr>]"
  define out2 where "out2 = out1[length out1 - 1 := (out1 ! (length out1 - 1))\<lparr>point_y := 1\<rparr>]"
  define res where "res = sort_key point_y out2"
  have ne: "out \<noteq> []" using len by auto
  have fin: "finishProfile out = Inr res"
    using ne by (simp add: finishProfile_def Let_def out1_def out2_def res_def)
  have l1: "length out1 = length out" and l2: "length out2 = length out" and lr: "length res = length out"
    by (simp_all add: out1_def out2_def res_def)
  have u0: "inUnitSquare ((out ! 0)\<lparr>point_y := 0\<rparr>)"
    using unit ne by (simp add: inUnitSquare_def)
  have u1: "\<forall>p\<in>set out1. inUnitSquare p"
    unfolding out1_def using unit u0 set_update_subset_insert[of out 0] by blast
  have "out1 ! (length out1 - 1) \<in> set out1" using l1 ne by (simp add: out1_def)
  then have "inUnitSquare ((out1 ! (length out1 - 1))\<lparr>point_y := 1\<rparr>)"
    using u1 by (simp add: inUnitSquare_def)
  then have u2: "\<forall>p\<in>set out2. inUnitSquare p"
    unfolding out2_def using u1 set_update_subset_insert[of out1 "length out1 - 1"] by blast
  have ur: "\<forall>p\<in>set res. inUnitSquare p" using u2 by (simp add: res_def)
  have pos: "0 < length out" "0 \<noteq> length out - 1" "length out - 1 < length out" using len by linarith+
  have "out1 ! 0 = (out ! 0)\<lparr>point_y := 0\<rparr>" using pos(1) by (simp add: out1_def)
  moreover have "out2 ! 0 = out1 ! 0" using pos l1 by (simp add: out2_def)
  ultimately have first: "point_y (out2 ! 0) = 0" by simp
  have lastp: "point_y (out2 ! (length out - 1)) = 1"
    using pos l1 by (simp add: out2_def)
  have m0: "out2 ! 0 \<in> set res" and m1: "out2 ! (length out - 1) \<in> set res"
    using l2 pos by (simp_all add: res_def)
  have srt: "sorted (map point_y res)" by (simp add: res_def)
  have rne: "res \<noteq> []" using lr ne by auto
  have "point_y (hd res) \<le> 0" using sorted_hd_min[OF srt m0] first by simp
  moreover have "0 \<le> point_y (hd res)" using ur rne by (simp add: inUnitSquare_def)
  ultimately have h: "point_y (hd res) = 0" by simp
  have "1 \<le> point_y (last res)" using sorted_last_max[OF srt m1] lastp by simp
  moreover have "point_y (last res) \<le> 1" using ur rne by (simp add: inUnitSquare_def)
  ultimately have l: "point_y (last res) = 1" by simp
  show ?thesis using fin lr srt h l ur by blast
qed

lemma radiusByRow_length:
  assumes "10 \<le> bboxHeight fg w h"
  shows "10 \<le> length (radiusByRow fg w h)"
  using assms by (auto simp: bboxHeight_def radiusByRow_def Let_def split: prod.splits)

lemma measureProfile_cases:
  assumes tp: "8 \<le> targetPoints" "targetPoints \<le> 24"
  shows "((bboxHeight fg w h < 10 \<or> maxOf (radiusByRow fg w h) < 2) \<and>
          measureProfile fg w h smoothing targetPoints = Inr emptyResult) \<or>
         (10 \<le> bboxHeight fg w h \<and> 2 \<le> maxOf (radiusByRow fg w h) \<and>
          (\<exists>res. measureProfile fg w h smoothing targetPoints = Inr \<lparr>profile = res, decorationBands = []\<rparr> \<and>
             int (length res) = targetPoints \<and> sorted (map point_y res) \<and>
             point_y (hd res) = 0 \<and> point_y (last res) = 1 \<and> (\<forall>p\<in>set res. inUnitSquare p)))"
proof (cases "bboxHeight fg w h < 10 \<or> maxOf (radiusByRow fg w h) < 2")
  case True
  then show ?thesis by (auto simp: measureProfile_def Let_def)
next
  case False
  define radii where "radii = radiusByRow fg w h"
  define smoothed where "smoothed = (if smoothing > 0 then medianFilter radii (nat (min smoothing 5)) else radii)"
  define pts where "pts = rawPoints smoothed (maxOf radii)"
  have "10 \<le> length radii" unfolding radii_def using False by (intro radiusByRow_length) simp
  then have "10 \<le> length smoothed" by (simp add: smoothed_def medianFilter_length)
  then have pne: "pts \<noteq> []" using rawPoints_length[of smoothed "maxOf radii"] unfolding pts_def by auto
  have punit: "\<forall>p\<in>set pts. inUnitSquare p" unfolding pts_def using rawPoints_unit by blast
  from downsample_ok[OF pne, of targetPoints "[0..<nat targetPoints]"] obtain out where
    out: "downsample pts targetPoints [0..<nat targetPoints] = Inr out"
      "length out = nat targetPoints" "set out \<subseteq> set pts" by auto
  have "2 \<le> length out" using out(2) tp by simp
  moreover have "\<forall>p\<in>set out. inUnitSquare p" using out(3) punit by blast
  ultimately obtain res where res: "finishProfile out = Inr res" "length res = length out"
    "sorted (map point_y res)" "point_y (hd res) = 0" "point_y (last res) = 1"
    "\<forall>p\<in>set res. inUnitSquare p"
    using finishProfile_ok by blast
  have "measureProfile fg w h smoothing targetPoints = Inr \<lparr>profile = res, decorationBands = []\<rparr>"
    using False out(1) res(1)
    by (simp add: measureProfile_def Let_def radii_def[symmetric] smoothed_def[symmetric] pts_def[symmetric])
  moreover have "int (length res) = targetPoints" using res(2) out(2) tp by simp
  ultimately show ?thesis using False res by auto
qed

subsection \<open>The labelling always returns\<close>

lemma parentOk_update:
  "parentOk N parent \<Longrightarrow> 1 \<le> r \<Longrightarrow> r \<le> x \<Longrightarrow> parentOk N (parent(x \<mapsto> r))"
  by (auto simp: parentOk_def)

lemma find_root_total:
  assumes "parentOk N parent" "1 \<le> x" "x < N"
  shows "\<exists>r parent'. find_root parent x = Some (r, parent') \<and> 1 \<le> r \<and> r \<le> x \<and> parentOk N parent'"
  using assms
proof (induction x rule: less_induct)
  case (less x)
  from less.prems obtain p where p: "parent x = Some p" "1 \<le> p" "p \<le> x"
    by (auto simp: parentOk_def)
  show ?case
  proof (cases "p = x")
    case True
    then show ?thesis using p less.prems by (subst find_root.simps) auto
  next
    case False
    then have px: "p < x" using p by simp
    from less.IH[OF px less.prems(1) p(2)] px less.prems(3)
    obtain r parent' where r: "find_root parent p = Some (r, parent')" "1 \<le> r" "r \<le> p"
      "parentOk N parent'" by auto
    have "find_root parent x = Some (r, parent'(x \<mapsto> r))"
      using p False r(1) by (subst find_root.simps) simp
    moreover have "parentOk N (parent'(x \<mapsto> r))"
      using r px by (intro parentOk_update) auto
    ultimately show ?thesis using r px by auto
  qed
qed

lemma labelInv_update:
  assumes "labelInv n (labels, N, parent)" "r < N" "parentOk N parent'"
  shows "labelInv n (labels[i := r], N, parent')"
  using assms set_update_subset_insert[of labels i r] by (auto simp: labelInv_def)

lemma labelPixel_total:
  assumes inv: "labelInv n st" and x: "x < width" and y: "y < height" and n: "n = width * height"
  shows "\<exists>st'. labelPixel fg width (y, x) st = Some st' \<and> labelInv n st'"
proof -
  obtain labels N parent where st: "st = (labels, N, parent)" by (cases st)
  have len: "length labels = n" and N: "1 \<le> N" and lab: "\<forall>l\<in>set labels. l < N"
    and pok: "parentOk N parent" using inv by (auto simp: st labelInv_def)
  define i where "i = y * width + x"
  have i: "i < n" unfolding i_def n using grid_index_less[OF x y] .
  define left where "left = (if x > 0 then labels ! (i - 1) else 0)"
  define up where "up = (if y > 0 then labels ! (i - width) else 0)"
  have leftN: "left < N" unfolding left_def using lab i len N by (auto simp: less_imp_diff_less)
  have upN: "up < N" unfolding up_def using lab i len N by (auto simp: less_imp_diff_less)
  have eq: "labelPixel fg width (y, x) st =
      (if \<not> fgAt fg i then Some st
       else if left \<noteq> 0 \<and> up \<noteq> 0 then
               (case find_root parent left of
                  None \<Rightarrow> None
                | Some (rl, parent1) \<Rightarrow>
                    (case find_root parent1 up of
                       None \<Rightarrow> None
                     | Some (ru, parent2) \<Rightarrow>
                         Some (labels[i := min rl ru], N, parent2(ru \<mapsto> min rl ru, rl \<mapsto> min rl ru))))
             else if left \<noteq> 0 then
               (case find_root parent left of
                  None \<Rightarrow> None
                | Some (r, parent1) \<Rightarrow> Some (labels[i := r], N, parent1))
             else if up \<noteq> 0 then
               (case find_root parent up of
                  None \<Rightarrow> None
                | Some (r, parent1) \<Rightarrow> Some (labels[i := r], N, parent1))
             else Some (labels[i := N], Suc N, parent(N \<mapsto> N)))"
    unfolding labelPixel_def st i_def left_def up_def
    by (simp add: Let_def cong: option.case_cong split: option.splits prod.splits)
  show ?thesis
  proof (cases "fgAt fg i")
    case False
    then show ?thesis using inv by (simp add: eq)
  next
    case fg: True
    consider (both) "left \<noteq> 0" "up \<noteq> 0" | (l) "left \<noteq> 0" "up = 0" | (u) "left = 0" "up \<noteq> 0"
      | (none) "left = 0" "up = 0" by blast
    then show ?thesis
    proof cases
      case both
      from find_root_total[OF pok _ leftN] both obtain rl p1 where
        rl: "find_root parent left = Some (rl, p1)" "1 \<le> rl" "rl \<le> left" "parentOk N p1" by auto
      from find_root_total[OF rl(4) _ upN] both obtain ru p2 where
        ru: "find_root p1 up = Some (ru, p2)" "1 \<le> ru" "ru \<le> up" "parentOk N p2" by auto
      have pk: "parentOk N (p2(ru \<mapsto> min rl ru, rl \<mapsto> min rl ru))"
        using ru rl by (intro parentOk_update) auto
      have "min rl ru < N" using rl(3) leftN by simp
      then have "labelInv n (labels[i := min rl ru], N, p2(ru \<mapsto> min rl ru, rl \<mapsto> min rl ru))"
        using labelInv_update[OF inv[unfolded st] _ pk] by simp
      moreover have "labelPixel fg width (y, x) st =
          Some (labels[i := min rl ru], N, p2(ru \<mapsto> min rl ru, rl \<mapsto> min rl ru))"
        using fg both rl(1) ru(1)
        by (simp add: eq)
      ultimately show ?thesis by simp
    next
      case l
      from find_root_total[OF pok _ leftN] l obtain r p1 where
        r: "find_root parent left = Some (r, p1)" "1 \<le> r" "r \<le> left" "parentOk N p1" by auto
      have "r < N" using r(3) leftN by simp
      then have "labelInv n (labels[i := r], N, p1)"
        using labelInv_update[OF inv[unfolded st] _ r(4)] by simp
      moreover have "labelPixel fg width (y, x) st = Some (labels[i := r], N, p1)"
        using fg l r(1)
        by (simp add: eq)
      ultimately show ?thesis by simp
    next
      case u
      from find_root_total[OF pok _ upN] u obtain r p1 where
        r: "find_root parent up = Some (r, p1)" "1 \<le> r" "r \<le> up" "parentOk N p1" by auto
      have "r < N" using r(3) upN by simp
      then have "labelInv n (labels[i := r], N, p1)"
        using labelInv_update[OF inv[unfolded st] _ r(4)] by simp
      moreover have "labelPixel fg width (y, x) st = Some (labels[i := r], N, p1)"
        using fg u r(1)
        by (simp add: eq)
      ultimately show ?thesis by simp
    next
      case none
      have "parentOk (Suc N) (parent(N \<mapsto> N))"
        using pok N by (auto simp: parentOk_def less_Suc_eq)
      moreover have "\<forall>l\<in>set (labels[i := N]). l < Suc N"
        using lab set_update_subset_insert[of labels i N] by (auto simp: less_Suc_eq)
      ultimately have "labelInv n (labels[i := N], Suc N, parent(N \<mapsto> N))"
        using len by (simp add: labelInv_def)
      moreover have "labelPixel fg width (y, x) st = Some (labels[i := N], Suc N, parent(N \<mapsto> N))"
        using fg none
        by (simp add: eq)
      ultimately show ?thesis by simp
    qed
  qed
qed

lemma labelScan_total:
  assumes "labelInv n st" "\<forall>(y, x)\<in>set pixels. x < width \<and> y < height" "n = width * height"
  shows "\<exists>st'. labelScan fg width pixels st = Some st' \<and> labelInv n st'"
  using assms
proof (induction pixels arbitrary: st)
  case Nil
  then show ?case by simp
next
  case (Cons yx pixels)
  obtain y x where yx: "yx = (y, x)" by (cases yx)
  from Cons.prems have "x < width" "y < height" by (auto simp: yx)
  from labelPixel_total[OF Cons.prems(1) this Cons.prems(3), of fg] obtain st1 where
    st1: "labelPixel fg width (y, x) st = Some st1" "labelInv n st1" by blast
  from Cons.IH[OF st1(2) _ Cons.prems(3)] Cons.prems(2) obtain st' where
    "labelScan fg width pixels st1 = Some st'" "labelInv n st'" by auto
  then show ?case using st1 by (simp add: yx)
qed

lemma scanOrder_range: "\<forall>(y, x)\<in>set (scanOrder w h). x < w \<and> y < h"
  by (auto simp: scanOrder_def)

lemma resolveRoots_total:
  assumes "labelInv n (labels, N, parent)" "\<forall>i\<in>set is. i < n"
  shows "\<exists>labels' parent'. resolveRoots is labels parent = Some labels' \<and> labelInv n (labels', N, parent')"
  using assms
proof (induction "is" arbitrary: labels parent)
  case Nil
  then show ?case by auto
next
  case (Cons i "is")
  have len: "length labels = n" and lab: "\<forall>l\<in>set labels. l < N" and pok: "parentOk N parent"
    using Cons.prems(1) by (auto simp: labelInv_def)
  show ?case
  proof (cases "labels ! i \<noteq> 0")
    case False
    then show ?thesis using Cons.IH[OF Cons.prems(1)] Cons.prems(2) by auto
  next
    case True
    have "labels ! i < N" using lab Cons.prems(2) len by simp
    from find_root_total[OF pok _ this] True obtain r p1 where
      r: "find_root parent (labels ! i) = Some (r, p1)" "1 \<le> r" "r \<le> labels ! i" "parentOk N p1" by auto
    have "r < N" using r(3) \<open>labels ! i < N\<close> by simp
    from labelInv_update[OF Cons.prems(1) this r(4)] have "labelInv n (labels[i := r], N, p1)" .
    from Cons.IH[OF this] Cons.prems(2) obtain labels' parent' where
      "resolveRoots is (labels[i := r]) p1 = Some labels'" "labelInv n (labels', N, parent')" by auto
    then show ?thesis using True r(1) by auto
  qed
qed

lemma labelComponents_total: "\<exists>labels count. labelComponents fg width height = Some (labels, count) \<and> length labels = width * height"
proof -
  have "labelInv (width * height) (replicate (width * height) 0, 1, Map.empty)"
    by (simp add: labelInv_def parentOk_def)
  from labelScan_total[OF this scanOrder_range refl, of fg] obtain st' where
    st': "labelScan fg width (scanOrder width height) (replicate (width * height) 0, 1, Map.empty)
          = Some st'" "labelInv (width * height) st'" by blast
  obtain labels N parent where "st' = (labels, N, parent)" by (cases st')
  with st' have
    s: "labelScan fg width (scanOrder width height) (replicate (width * height) 0, 1, Map.empty)
          = Some (labels, N, parent)" "labelInv (width * height) (labels, N, parent)"
    by simp_all
  from resolveRoots_total[OF s(2), of "[0..<width * height]"] obtain labels' parent' where
    r: "resolveRoots [0..<width * height] labels parent = Some labels'"
       "labelInv (width * height) (labels', N, parent')" by auto
  show ?thesis using s(1) r by (simp add: labelComponents_def Let_def labelInv_def)
qed

lemma keepLargestComponent_total:
  "\<exists>out. keepLargestComponent fg width height = Some out \<and> length out = length fg"
  using labelComponents_total[of fg width height] by (auto simp: keepLargestComponent_def Let_def)

subsection \<open>The flood fill always returns\<close>

lemma pushed_mem:
  "n \<in> set (concat (map (\<lambda>nb. case nb of None \<Rightarrow> [] | Some n \<Rightarrow> if P n then [n] else []) nbs))
   \<Longrightarrow> Some n \<in> set nbs"
  by (induction nbs) (auto split: option.splits if_splits)

lemma flood_pushed_range:
  assumes "idx < w * h"
  shows "\<forall>n\<in>set (concat (map (\<lambda>nb. case nb of
                                      None \<Rightarrow> []
                                    | Some n \<Rightarrow> if n \<notin> V \<and> \<not> fgAt fg n then [n] else [])
                    [if idx mod w > 0 then Some (idx - 1) else None,
                     if idx mod w < w - 1 then Some (idx + 1) else None,
                     if idx div w > 0 then Some (idx - w) else None,
                     if idx div w < h - 1 then Some (idx + w) else None])). n < w * h"
proof
  fix n
  assume "n \<in> set (concat (map (\<lambda>nb. case nb of
                                      None \<Rightarrow> []
                                    | Some n \<Rightarrow> if n \<notin> V \<and> \<not> fgAt fg n then [n] else [])
                    [if idx mod w > 0 then Some (idx - 1) else None,
                     if idx mod w < w - 1 then Some (idx + 1) else None,
                     if idx div w > 0 then Some (idx - w) else None,
                     if idx div w < h - 1 then Some (idx + w) else None]))"
  then have "Some n \<in> set [if idx mod w > 0 then Some (idx - 1) else None,
                     if idx mod w < w - 1 then Some (idx + 1) else None,
                     if idx div w > 0 then Some (idx - w) else None,
                     if idx div w < h - 1 then Some (idx + w) else None]"
    by (rule pushed_mem)
  then consider "n = idx - 1" | "idx mod w < w - 1" "n = idx + 1" | "n = idx - w"
    | "idx div w < h - 1" "n = idx + w"
    by (auto split: if_splits)
  then show "n < w * h"
  proof cases
    case 1
    then show ?thesis using assms by simp
  next
    case 2
    note d = grid_decompose[OF assms]
    have "(idx div w) * w + (idx mod w + 1) < w * h"
      using 2 d by (intro grid_index_less) auto
    then show ?thesis using d 2 by simp
  next
    case 3
    then show ?thesis using assms by simp
  next
    case 4
    note d = grid_decompose[OF assms]
    have "(idx div w + 1) * w + idx mod w < w * h"
      using 4 d by (intro grid_index_less) auto
    then show ?thesis using d 4 by (simp add: algebra_simps)
  qed
qed

lemma floodLoop_total:
  assumes "\<forall>i\<in>set queue. i < w * h" "visited \<subseteq> {..<w * h}"
  shows "\<exists>out. floodLoop fg w h queue visited isBackground = Some out \<and> length out = length isBackground"
  using assms
proof (induction "card ({..<w * h} - visited)" arbitrary: visited queue isBackground rule: less_induct)
  case less
  show ?case using less.prems(1)
  proof (induction queue arbitrary: isBackground)
    case Nil
    show ?case by (simp add: floodLoop.simps[of fg w h "[]"])
  next
    case (Cons idx rest)
    show ?case
    proof (cases "idx \<in> visited \<or> fgAt fg idx")
      case True
      from Cons.IH[of isBackground] Cons.prems obtain out where
        "floodLoop fg w h rest visited isBackground = Some out" "length out = length isBackground" by auto
      then show ?thesis using True by (simp add: floodLoop.simps[of fg w h "idx # rest"])
    next
      case False
      have idx: "idx < w * h" using Cons.prems by simp
      define pushed where "pushed = concat (map (\<lambda>nb. case nb of
                                      None \<Rightarrow> []
                                    | Some n \<Rightarrow> if n \<notin> insert idx visited \<and> \<not> fgAt fg n then [n] else [])
                    [if idx mod w > 0 then Some (idx - 1) else None,
                     if idx mod w < w - 1 then Some (idx + 1) else None,
                     if idx div w > 0 then Some (idx - w) else None,
                     if idx div w < h - 1 then Some (idx + w) else None])"
      have step: "floodLoop fg w h (idx # rest) visited isBackground
            = floodLoop fg w h (rest @ pushed) (insert idx visited) (isBackground[idx := True])"
        unfolding pushed_def
        by (subst floodLoop.simps) (simp only: list.case False if_False Let_def)
      have "\<forall>i\<in>set pushed. i < w * h"
        unfolding pushed_def by (rule flood_pushed_range[OF idx])
      then have q: "\<forall>i\<in>set (rest @ pushed). i < w * h"
        using Cons.prems by auto
      have v: "insert idx visited \<subseteq> {..<w * h}" using less.prems(2) idx by simp
      have "{..<w * h} - insert idx visited \<subset> {..<w * h} - visited" using False idx by auto
      then have c: "card ({..<w * h} - insert idx visited) < card ({..<w * h} - visited)"
        by (intro psubset_card_mono) auto
      from less.hyps[OF c q v, of "isBackground[idx := True]"] obtain out where
        out: "floodLoop fg w h (rest @ pushed) (insert idx visited) (isBackground[idx := True]) = Some out"
          "length out = length isBackground" by auto
      have "floodLoop fg w h (idx # rest) visited isBackground = Some out"
        using step out(1) by simp
      then show ?thesis using out by simp
    qed
  qed
qed

lemma edgeSeeds_range:
  assumes "0 < w" "0 < h"
  shows "\<forall>i\<in>set (edgeSeeds fg w h). i < w * h"
proof -
  have top: "x < w * h" if "x < w" for x
    using grid_index_less[OF that assms(2), of ] by simp
  have left: "y * w < w * h" if "y < h" for y
    using grid_index_less[OF assms(1) that] by simp
  have right: "y * w + w - 1 < w * h" if "y < h" for y
    using grid_index_less[of "w - 1" w y h] assms(1) that by simp
  show ?thesis using top left right by (auto simp: edgeSeeds_def)
qed

lemma fillFromEdges_total:
  assumes "0 < w" "0 < h"
  shows "\<exists>out. fillFromEdges fg w h = Some out \<and> length out = w * h"
proof -
  from floodLoop_total[OF edgeSeeds_range[OF assms, of fg], of "{}" fg "replicate (w * h) False"]
  obtain z where "floodLoop fg w h (edgeSeeds fg w h) {} (replicate (w * h) False) = Some z"
    "length z = w * h" by auto
  then show ?thesis by (simp add: fillFromEdges_def)
qed

subsection \<open>The whole pipeline\<close>

lemma cleanupMask_total:
  assumes "0 < w" "0 < h"
  shows "\<exists>fg. cleanupMask fg0 w h cleanupLevel = Some fg"
proof -
  obtain fg1 where fg1: "keepLargestComponent fg0 w h = Some fg1"
    using keepLargestComponent_total by blast
  obtain fg2 where fg2: "(if cleanupLevel \<ge> 1 then keepLargestComponent (morphClose fg1 w h) w h else Some fg1) = Some fg2"
    using keepLargestComponent_total[of "morphClose fg1 w h" w h] by (cases "cleanupLevel \<ge> 1") auto
  obtain fg3 where fg3: "(if cleanupLevel \<ge> 2
               then keepLargestComponent (morphClose (morphOpen fg2 w h) w h) w h else Some fg2) = Some fg3"
    using keepLargestComponent_total[of "morphClose (morphOpen fg2 w h) w h" w h]
    by (cases "cleanupLevel \<ge> 2") auto
  obtain fgFilled where ff: "fillFromEdges fg3 w h = Some fgFilled"
    using fillFromEdges_total[OF assms] by blast
  obtain fg4 where fg4: "keepLargestComponent fgFilled w h = Some fg4"
    using keepLargestComponent_total by blast
  have "cleanupMask fg0 w h cleanupLevel =
      (if cleanupLevel \<ge> 1 \<and> fracDegenerate (countTrue fg3) (w * h)
       then (if fracReasonable (countTrue fgFilled) (w * h) then Some fg4 else Some fg3)
       else Some fg3)"
    by (simp only: cleanupMask_def fg1 fg2 fg3 ff fg4 Option.bind.simps)
  then show ?thesis by (simp split: if_splits)
qed

lemma segmentMask_total:
  assumes "0 < w" "0 < h"
  shows "\<exists>fg. segmentMask gray w h options = Some fg"
  using cleanupMask_total[OF assms] by (simp add: segmentMask_def Let_def)

lemma clampTargetPoints_range:
  "8 \<le> clampTargetPoints t" "clampTargetPoints t \<le> 24"
  by (simp_all add: clampTargetPoints_def)

lemma resize_None: "w0 < 1 \<or> h0 < 1 \<Longrightarrow> resize w0 h0 = None"
  by (simp add: resize_def)

lemma processingSize_Some:
  assumes "processingSize img = Some (wi, hi)"
  shows "\<exists>w0 h0. naturalWidth img = Finite w0 \<and> naturalHeight img = Finite h0 \<and>
           resize w0 h0 = Some (wi, hi)"
  using assms by (cases "naturalWidth img"; cases "naturalHeight img") (simp_all add: processingSize_def)

lemma processingSize_pos:
  assumes "processingSize img = Some (wi, hi)"
  shows "1 \<le> wi" "1 \<le> hi"
proof -
  from processingSize_Some[OF assms] obtain w0 h0 where d: "resize w0 h0 = Some (wi, hi)" by blast
  have "\<not> (w0 < 1 \<or> h0 < 1)" using d resize_None[of w0 h0] by auto
  then have "1 \<le> w0" "1 \<le> h0" by simp_all
  from resize_dimensions_aux[OF this] d show "1 \<le> wi" "1 \<le> hi" by auto
qed

lemma processingSize_unusable:
  assumes "\<not> usableDimension (naturalWidth img) \<or> \<not> usableDimension (naturalHeight img)"
  shows "processingSize img = None"
  using assms
  by (cases "naturalWidth img"; cases "naturalHeight img")
     (auto simp: processingSize_def usableDimension_def intro: resize_None)

lemma extract_unfold:
  "extractProfileFromImage img options =
     (if \<not> hasContext img then Some (Inr emptyResult)
      else case processingSize img of
             None \<Rightarrow> Some (Inr emptyResult)
           | Some (wi, hi) \<Rightarrow>
               (case segmentMask (grayImage img options (nat wi) (nat hi)) (nat wi) (nat hi) options of
                  None \<Rightarrow> None
                | Some fg \<Rightarrow>
                    Some (measureProfile fg (nat wi) (nat hi)
                            (case opt_smoothing options of None \<Rightarrow> 2 | Some s \<Rightarrow> s)
                            (clampTargetPoints (opt_targetPoints options)))))"
  by (simp add: extractProfileFromImage_def Let_def split: option.splits prod.splits)

lemma extract_result:
  "\<exists>res. extractProfileFromImage img options = Some (Inr res) \<and>
     (profile res = [] \<or>
      (int (length (profile res)) = clampTargetPoints (opt_targetPoints options) \<and>
       sorted (map point_y (profile res)) \<and> point_y (hd (profile res)) = 0 \<and>
       point_y (last (profile res)) = 1 \<and> (\<forall>p\<in>set (profile res). inUnitSquare p)))"
proof (cases "hasContext img")
  case False
  then show ?thesis by (simp add: extract_unfold emptyResult_def)
next
  case ctx: True
  show ?thesis
  proof (cases "processingSize img")
    case None
    then show ?thesis using ctx by (simp add: extract_unfold emptyResult_def)
  next
    case (Some wh)
    obtain wi hi where wh: "wh = (wi, hi)" by (cases wh)
    note pos = processingSize_pos[OF Some[unfolded wh]]
    define w h where "w = nat wi" and "h = nat hi"
    have wh0: "0 < w" "0 < h" using pos by (simp_all add: w_def h_def)
    obtain fg where fg: "segmentMask (grayImage img options w h) w h options = Some fg"
      using segmentMask_total[OF wh0] by blast
    define s where "s = (case opt_smoothing options of None \<Rightarrow> (2::int) | Some s \<Rightarrow> s)"
    define tp where "tp = clampTargetPoints (opt_targetPoints options)"
    have e: "extractProfileFromImage img options = Some (measureProfile fg w h s tp)"
      using ctx Some fg by (simp add: extract_unfold wh w_def h_def s_def tp_def)
    have "8 \<le> tp" "tp \<le> 24" unfolding tp_def by (rule clampTargetPoints_range)+
    from measureProfile_cases[OF this, of fg w h s]
    show ?thesis unfolding e tp_def[symmetric]
      by (auto simp: emptyResult_def)
  qed
qed

lemma extract_degenerate_mask:
  assumes "hasContext img" "processingSize img = Some (wi, hi)"
    and "segmentMask (grayImage img options (nat wi) (nat hi)) (nat wi) (nat hi) options = Some fg"
    and "bboxHeight fg (nat wi) (nat hi) < 10 \<or> maxOf (radiusByRow fg (nat wi) (nat hi)) < 2"
  shows "extractProfileFromImage img options = Some (Inr emptyResult)"
  using assms by (auto simp: extract_unfold measureProfile_def Let_def)

lemma extract_nondegenerate_mask:
  assumes "hasContext img" "processingSize img = Some (wi, hi)"
    and "segmentMask (grayImage img options (nat wi) (nat hi)) (nat wi) (nat hi) options = Some fg"
    and "10 \<le> bboxHeight fg (nat wi) (nat hi)" "2 \<le> maxOf (radiusByRow fg (nat wi) (nat hi))"
  shows "\<exists>res. extractProfileFromImage img options = Some (Inr res) \<and> profile res \<noteq> []"
proof -
  define s where "s = (case opt_smoothing options of None \<Rightarrow> (2::int) | Some s \<Rightarrow> s)"
  define tp where "tp = clampTargetPoints (opt_targetPoints options)"
  have e: "extractProfileFromImage img options = Some (measureProfile fg (nat wi) (nat hi) s tp)"
    using assms(1,2,3) by (simp add: extract_unfold s_def tp_def)
  have tp: "8 \<le> tp" "tp \<le> 24" unfolding tp_def by (rule clampTargetPoints_range)+
  from measureProfile_cases[OF tp, of fg "nat wi" "nat hi" s]
  obtain res where "measureProfile fg (nat wi) (nat hi) s tp = Inr \<lparr>profile = res, decorationBands = []\<rparr>"
    "int (length res) = tp" using assms(4,5) by auto
  then show ?thesis unfolding e using tp by auto
qed

end
